theory Spec2Isabelle
  imports Main
begin

section \<open>Strings as Python sees them\<close>

text \<open>
  Paths, keywords and file contents are Python \<open>str\<close> values. A path, a log
  message and the text of a file are modelled as \<open>string\<close>, one \<open>char\<close> per
  character: a \<open>char\<close> is the code point of the character, from U+0000 to U+00FF. The
  case and whitespace functions below are those of Python on these code points.
\<close>

text \<open>The letters that have a lower case: A to Z, and U+00C0 to U+00DE without U+00D7.\<close>

definition upper_letters :: "char list" where
  "upper_letters =
     ''ABCDEFGHIJKLMNOPQRSTUVWXYZ'' @
     [CHR 0xC0, CHR 0xC1, CHR 0xC2, CHR 0xC3, CHR 0xC4, CHR 0xC5, CHR 0xC6, CHR 0xC7,
      CHR 0xC8, CHR 0xC9, CHR 0xCA, CHR 0xCB, CHR 0xCC, CHR 0xCD, CHR 0xCE, CHR 0xCF,
      CHR 0xD0, CHR 0xD1, CHR 0xD2, CHR 0xD3, CHR 0xD4, CHR 0xD5, CHR 0xD6, CHR 0xD8,
      CHR 0xD9, CHR 0xDA, CHR 0xDB, CHR 0xDC, CHR 0xDD, CHR 0xDE]"

definition lower_letters :: "char list" where
  "lower_letters =
     ''abcdefghijklmnopqrstuvwxyz'' @
     [CHR 0xE0, CHR 0xE1, CHR 0xE2, CHR 0xE3, CHR 0xE4, CHR 0xE5, CHR 0xE6, CHR 0xE7,
      CHR 0xE8, CHR 0xE9, CHR 0xEA, CHR 0xEB, CHR 0xEC, CHR 0xED, CHR 0xEE, CHR 0xEF,
      CHR 0xF0, CHR 0xF1, CHR 0xF2, CHR 0xF3, CHR 0xF4, CHR 0xF5, CHR 0xF6, CHR 0xF8,
      CHR 0xF9, CHR 0xFA, CHR 0xFB, CHR 0xFC, CHR 0xFD, CHR 0xFE]"

text \<open>\<open>str.lower()\<close> on one character.\<close>

definition lower_char :: "char \<Rightarrow> char" where
  "lower_char c = (case map_of (zip upper_letters lower_letters) c of Some d \<Rightarrow> d | None \<Rightarrow> c)"

text \<open>\<open>str.lower()\<close>.\<close>

definition lower :: "string \<Rightarrow> string" where
  "lower s = map lower_char s"

text \<open>
  \<open>str.isspace()\<close> on one character: TAB, LF, VT, FF, CR, FS, GS, RS, US, space, NEL
  (U+0085) and the no-break space (U+00A0).
\<close>

definition is_space :: "char \<Rightarrow> bool" where
  "is_space c \<longleftrightarrow>
     c \<in> set [CHR 0x09, CHR 0x0A, CHR 0x0B, CHR 0x0C, CHR 0x0D,
                CHR 0x1C, CHR 0x1D, CHR 0x1E, CHR 0x1F, CHR '' '', CHR 0x85, CHR 0xA0]"

text \<open>
  \<open>str.strip()\<close>: the characters that \<open>str.isspace\<close> holds for, here \<open>space\<close>, are
  dropped at both ends.
\<close>

definition strip :: "('c \<Rightarrow> bool) \<Rightarrow> 'c list \<Rightarrow> 'c list" where
  "strip space s = rev (dropWhile space (rev (dropWhile space s)))"

text \<open>\<open>s.startswith(pre)\<close>.\<close>

definition startswith :: "string \<Rightarrow> string \<Rightarrow> bool" where
  "startswith s pre = (take (length pre) s = pre)"

text \<open>\<open>sub in s\<close>: \<open>sub\<close> is a contiguous part of \<open>s\<close>.\<close>

fun contains :: "string \<Rightarrow> string \<Rightarrow> bool" where
  "contains [] sub = (sub = [])"
| "contains (c # cs) sub = (startswith (c # cs) sub \<or> contains cs sub)"

text \<open>\<open>s.rfind(c)\<close> for a one-character \<open>c\<close>: the last index of \<open>c\<close>, or \<open>-1\<close>.\<close>

fun rfind_from :: "char \<Rightarrow> string \<Rightarrow> int \<Rightarrow> int \<Rightarrow> int" where
  "rfind_from c [] i found = found"
| "rfind_from c (x # xs) i found = rfind_from c xs (i + 1) (if x = c then i else found)"

definition rfind :: "string \<Rightarrow> char \<Rightarrow> int" where
  "rfind s c = rfind_from c s 0 (-1)"

text \<open>\<open>str(n)\<close> for a natural number.\<close>

definition digit_char :: "nat \<Rightarrow> char" where
  "digit_char d = ''0123456789'' ! d"

fun str_nat :: "nat \<Rightarrow> string" where
  "str_nat n = (if n < 10 then [digit_char n] else str_nat (n div 10) @ [digit_char (n mod 10)])"

declare str_nat.simps [simp del]

section \<open>\<open>os.path.splitext\<close> (POSIX)\<close>

text \<open>
  \<open>genericpath._splitext(p, '/', None, '.')\<close>: the extension starts at the last dot of the
  last path component, unless that component has only dots before it.
  \<^verbatim>\<open>
    sepIndex = p.rfind(sep)
    dotIndex = p.rfind(extsep)
    if dotIndex > sepIndex:
        filenameIndex = sepIndex + 1
        while filenameIndex < dotIndex:
            if p[filenameIndex:filenameIndex+1] != extsep:
                return p[:dotIndex], p[dotIndex:]
            filenameIndex += 1
    return p, p[:0]
  \<close>
\<close>

function splitext_loop :: "string \<Rightarrow> int \<Rightarrow> int \<Rightarrow> (string \<times> string) option" where
  "splitext_loop p filenameIndex dotIndex =
     (if filenameIndex < dotIndex
      then (if take 1 (drop (nat filenameIndex) p) \<noteq> ''.''
            then Some (take (nat dotIndex) p, drop (nat dotIndex) p)
            else splitext_loop p (filenameIndex + 1) dotIndex)
      else None)"
  by pat_completeness auto
termination
  by (relation "measure (\<lambda>(p, i, d). nat (d - i))") auto

declare splitext_loop.simps [simp del]

definition splitext :: "string \<Rightarrow> string \<times> string" where
  "splitext p =
     (let sepIndex = rfind p CHR ''/'';
          dotIndex = rfind p CHR ''.''
      in if dotIndex > sepIndex
         then (case splitext_loop p (sepIndex + 1) dotIndex of
                 Some r \<Rightarrow> r
               | None \<Rightarrow> (p, []))
         else (p, []))"

section \<open>The text-file classifier\<close>

definition text_extensions :: "string list" where
  "text_extensions =
     [''.txt'', ''.py'', ''.js'', ''.html'', ''.csv'', ''.json'', ''.xml'', ''.md'',
      ''.log'', ''.ini'', ''.cfg'', ''.conf'']"

text \<open>\<open>FileMonitor._is_text_file\<close>.\<close>

definition is_text_file :: "string \<Rightarrow> bool" where
  "is_text_file file_path = (let ext = snd (splitext file_path) in lower ext \<in> set text_extensions)"

section \<open>The logger and \<open>utils.py\<close>\<close>

text \<open>
  Every call of \<open>logger.info\<close>, \<open>logger.warning\<close> and \<open>logger.error\<close> appends one
  record to the log; a function that logs returns the records it wrote, in order.
\<close>

datatype log_level = INFO | WARNING | ERROR

type_synonym log_record = "log_level \<times> string"

text \<open>\<open>utils.log_activity\<close>.\<close>

definition log_activity :: "string \<Rightarrow> string \<Rightarrow> log_record list" where
  "log_activity activity_type details =
     [(INFO, ''ACTIVITY: '' @ activity_type @ '' - '' @ details)]"

text \<open>\<open>utils.log_alert\<close>.\<close>

definition log_alert :: "string \<Rightarrow> string \<Rightarrow> log_record list" where
  "log_alert alert_level message =
     (if lower alert_level = ''low'' then [(WARNING, ''ALERT (LOW): '' @ message)]
      else if lower alert_level = ''medium'' then [(WARNING, ''ALERT (MEDIUM): '' @ message)]
      else if lower alert_level = ''high'' then [(ERROR, ''ALERT (HIGH): '' @ message)]
      else [(WARNING, ''ALERT: '' @ message)])"

section \<open>The keyword matcher\<close>

text \<open>
  \<open>keywords_pattern\<close> is
  \<open>re.compile('(' + '|'.join(re.escape(kw) ...) + ')', re.IGNORECASE)\<close>: an alternation
  of literal keywords. It is modelled by the list of its alternatives, in order.

  Which character of the text a character of a literal matches under \<open>re.IGNORECASE\<close> is
  decided by the tables of Python's Unicode database. The matcher takes this relation as a
  parameter, \<open>ci k c\<close> for a pattern character \<open>k\<close> and a text character \<open>c\<close>, and
  works on characters of any type, so that what is proved of it holds for every text. A
  literal matches at the start of \<open>s\<close> when \<open>s\<close> is long enough and agrees with it
  character by character:
\<close>

definition ci_startswith :: "('c \<Rightarrow> 'c \<Rightarrow> bool) \<Rightarrow> 'c list \<Rightarrow> 'c list \<Rightarrow> bool" where
  "ci_startswith ci s kw \<longleftrightarrow> length kw \<le> length s \<and> list_all2 ci kw (take (length kw) s)"

text \<open>
  One match attempt of the alternation at the start of \<open>s\<close>: the first alternative that
  matches wins, and its length is returned. After an empty match the engine must advance
  (\<open>must_advance\<close>): an empty match at the same place is refused and the next alternative
  tried.
\<close>

fun pattern_match ::
  "('c \<Rightarrow> 'c \<Rightarrow> bool) \<Rightarrow> 'c list list \<Rightarrow> bool \<Rightarrow> 'c list \<Rightarrow> nat option" where
  "pattern_match ci [] must_advance s = None"
| "pattern_match ci (kw # kws) must_advance s =
     (if ci_startswith ci s kw \<and> \<not> (must_advance \<and> kw = []) then Some (length kw)
      else pattern_match ci kws must_advance s)"

lemma pattern_match_bound:
  "pattern_match ci pat adv s = Some n \<Longrightarrow> n \<le> length s \<and> (adv \<longrightarrow> 0 < n)"
  by (induction pat) (auto simp: ci_startswith_def split: if_splits)

text \<open>
  \<open>pattern.finditer(s)\<close>: the matched texts, left to right, without overlap. The search
  tries each start position in turn; after a match it resumes at the match's end.
\<close>

function finditer ::
  "('c \<Rightarrow> 'c \<Rightarrow> bool) \<Rightarrow> 'c list list \<Rightarrow> bool \<Rightarrow> 'c list \<Rightarrow> 'c list list" where
  "finditer ci pat must_advance s =
     (case pattern_match ci pat must_advance s of
        Some n \<Rightarrow> take n s # finditer ci pat (n = 0) (drop n s)
      | None \<Rightarrow> (case s of [] \<Rightarrow> [] | c # cs \<Rightarrow> finditer ci pat False cs))"
  by pat_completeness auto
termination
  by (relation "measure (\<lambda>(ci, pat, adv, s). 2 * length s + (if adv then 0 else 1))")
     (auto dest!: pattern_match_bound)

declare finditer.simps [simp del]

text \<open>
  On the characters of the model, \<open>re.IGNORECASE\<close> lets a text character match a pattern
  character exactly when the two have the same lower case.
\<close>

definition ignorecase :: "char \<Rightarrow> char \<Rightarrow> bool" where
  "ignorecase k c \<longleftrightarrow> lower_char c = lower_char k"

section \<open>Reading a file line by line\<close>

text \<open>
  \<open>open(file_path, 'r', encoding='utf-8', errors='ignore')\<close> reads in universal-newlines
  mode: \<open>\r\n\<close> and a lone \<open>\r\<close> arrive as \<open>\n\<close>. Iterating the file yields its lines,
  each with its \<open>\n\<close> (the last line may lack one); an empty file has no line.
\<close>

fun translate_newlines :: "string \<Rightarrow> string" where
  "translate_newlines [] = []"
| "translate_newlines [c] = (if c = CHR 0x0D then [CHR 0x0A] else [c])"
| "translate_newlines (c # d # cs) =
     (if c = CHR 0x0D
      then (if d = CHR 0x0A then CHR 0x0A # translate_newlines cs
            else CHR 0x0A # translate_newlines (d # cs))
      else c # translate_newlines (d # cs))"

fun split_lines :: "string \<Rightarrow> string list" where
  "split_lines [] = []"
| "split_lines (c # cs) =
     (if c = CHR 0x0A then [c] # split_lines cs
      else (case split_lines cs of [] \<Rightarrow> [[c]] | l # ls \<Rightarrow> (c # l) # ls))"

definition file_lines :: "string \<Rightarrow> string list" where
  "file_lines content = split_lines (translate_newlines content)"

text \<open>
  What the monitor can observe of a path: \<open>os.path.exists\<close> is false (\<open>Missing\<close>);
  the path exists but \<open>open\<close> or a read raises, with the exception's text (\<open>Unreadable\<close>);
  or the file's decoded text (\<open>Content\<close>).
\<close>

datatype file_state = Missing | Unreadable string | Content string

type_synonym filesystem = "string \<Rightarrow> file_state"

section \<open>The monitor\<close>

text \<open>
  The monitor is a record of the attributes of \<open>FileMonitor\<close>. The compiled
  \<open>keywords_pattern\<close> is kept as the list of its alternatives. \<open>usb_detected\<close> is written
  by the USB simulation thread, which is not modelled: a handler reads the value the record
  holds when it runs.
\<close>

datatype thread_state = NotStarted | Alive | Finished

text \<open>watchdog's \<open>Observer\<close>, as far as the monitor uses it: its watches and its thread.\<close>

record observer_state =
  watches :: "string list"
  observer_thread :: thread_state

record file_monitor =
  paths_to_monitor :: "string list"
  sensitive_keywords :: "string list"
  keywords_pattern :: "string list"
  observer :: observer_state
  is_running :: bool
  usb_thread :: "thread_state option"
  usb_detected :: bool

definition default_keywords :: "string list" where
  "default_keywords =
     [''password'', ''confidential'', ''secret'', ''private'', ''bank'', ''credit card'',
      ''ssn'', ''social security'', ''account'', ''classified'', ''restricted'']"

text \<open>\<open>x or default\<close> for an optional list: \<open>None\<close> and the empty list are falsy.\<close>

definition or_default :: "'a list option \<Rightarrow> 'a list \<Rightarrow> 'a list" where
  "or_default x d = (case x of None \<Rightarrow> d | Some xs \<Rightarrow> if xs = [] then d else xs)"

text \<open>
  \<open>FileMonitor.__init__\<close>; \<open>cwd\<close> is \<open>os.getcwd()\<close>. Its three info records are
  left out.
\<close>

definition FileMonitor_init :: "string \<Rightarrow> string list option \<Rightarrow> string list option \<Rightarrow> file_monitor" where
  "FileMonitor_init cwd paths keywords =
     \<lparr>paths_to_monitor = or_default paths [cwd],
      sensitive_keywords = or_default keywords default_keywords,
      keywords_pattern = or_default keywords default_keywords,
      observer = \<lparr>watches = [], observer_thread = NotStarted\<rparr>,
      is_running = False,
      usb_thread = None,
      usb_detected = False\<rparr>"

text \<open>A match, the dict with the keys \<open>keyword\<close>, \<open>line\<close> and \<open>context\<close>.\<close>

record 'c keyword_match =
  keyword :: "'c list"
  line :: nat
  context' :: "'c list"

text \<open>
  The body of the inner loop: all matches of one line, numbered \<open>line_num\<close>. Like the
  matcher it takes what depends on the Unicode tables as parameters.
\<close>

definition scan_line ::
  "('c \<Rightarrow> 'c \<Rightarrow> bool) \<Rightarrow> ('c \<Rightarrow> bool) \<Rightarrow> 'c list list \<Rightarrow> nat \<Rightarrow> 'c list \<Rightarrow>
   'c keyword_match list" where
  "scan_line ci space pat line_num l =
     map (\<lambda>kw. \<lparr>keyword = kw, line = line_num, context' = strip space l\<rparr>)
       (finditer ci pat False l)"

text \<open>The outer loop, \<open>for line_num, line in enumerate(f, 1)\<close>.\<close>

definition scan_lines ::
  "('c \<Rightarrow> 'c \<Rightarrow> bool) \<Rightarrow> ('c \<Rightarrow> bool) \<Rightarrow> 'c list list \<Rightarrow> 'c list list \<Rightarrow>
   'c keyword_match list" where
  "scan_lines ci space pat ls =
     concat (map (\<lambda>(line_num, l). scan_line ci space pat line_num l) (enumerate 1 ls))"

text \<open>
  The \<open>try\<close> body up to the end of the \<open>with\<close> block: the exception's text, or the
  matches.
\<close>

definition read_matches ::
  "file_monitor \<Rightarrow> filesystem \<Rightarrow> string \<Rightarrow> string + char keyword_match list" where
  "read_matches mon fs file_path =
     (case fs file_path of
        Content text \<Rightarrow>
          Inr (scan_lines ignorecase is_space (keywords_pattern mon) (file_lines text))
      | Unreadable e \<Rightarrow> Inl e
      | Missing \<Rightarrow> Inl ''[Errno 2] No such file or directory'')"

text \<open>\<open>FileMonitor.check_file_for_sensitive_data\<close>: the result and the log records written.\<close>

definition check_file_for_sensitive_data ::
  "file_monitor \<Rightarrow> filesystem \<Rightarrow> string \<Rightarrow>
   (bool \<times> char keyword_match list) \<times> log_record list" where
  "check_file_for_sensitive_data mon fs file_path =
     (if fs file_path = Missing
      then ((False, []), [(WARNING, ''File does not exist: '' @ file_path)])
      else if \<not> is_text_file file_path then ((False, []), [])
      else (case read_matches mon fs file_path of
              Inr matches \<Rightarrow>
                (if matches \<noteq> []
                 then ((True, matches),
                       (WARNING, ''Sensitive data found in file: '' @ file_path) #
                       map (\<lambda>m. (WARNING, ''  Keyword: '' @ keyword m @ '' at line '' @ str_nat (line m)))
                         matches)
                 else ((False, []), []))
            | Inl e \<Rightarrow>
                ((False, []), [(ERROR, ''Error checking file for sensitive data: '' @ e)])))"

record decision =
  action :: string
  reason :: string
  alert_level :: string

text \<open>
  The first part of \<open>handle_file_access\<close>, for a created or modified file: the decision
  returned there, if any, and the records logged.
\<close>

definition check_created_or_modified ::
  "file_monitor \<Rightarrow> filesystem \<Rightarrow> string \<Rightarrow> string \<Rightarrow> decision option \<times> log_record list" where
  "check_created_or_modified mon fs file_path access_type =
     (if access_type \<in> set [''created'', ''modified'']
      then (let ((has_sensitive, matches), checked) = check_file_for_sensitive_data mon fs file_path
            in if has_sensitive
               then (let level = (if usb_detected mon then ''high'' else ''medium'');
                         alert_msg = ''Sensitive data found in file: '' @ file_path;
                         alerted = checked @ log_alert level alert_msg
                     in if usb_detected mon
                        then (Some \<lparr>action = ''block'',
                                    reason = ''Potential data exfiltration detected'',
                                    alert_level = ''high''\<rparr>,
                              alerted @
                              [(ERROR, ''ALERT: Potential data exfiltration detected! File with sensitive data accessed while USB connected.'')])
                        else (None, alerted))
               else (None, checked))
      else (None, []))"

text \<open>The second part: the email artifact check.\<close>

definition check_email ::
  "file_monitor \<Rightarrow> filesystem \<Rightarrow> string \<Rightarrow> decision option \<times> log_record list" where
  "check_email mon fs file_path =
     (if contains (lower file_path) ''.eml'' \<or> contains (lower file_path) ''email''
      then (let ((has_sensitive, matches), checked) = check_file_for_sensitive_data mon fs file_path
            in if has_sensitive
               then (let alert_msg = ''Potential email data leak detected: '' @ file_path
                     in (Some \<lparr>action = ''block'',
                                reason = ''Potential email data leak detected'',
                                alert_level = ''high''\<rparr>,
                         checked @ log_alert ''high'' alert_msg @ [(ERROR, ''ALERT: '' @ alert_msg)]))
               else (None, checked))
      else (None, []))"

text \<open>\<open>FileMonitor.handle_file_access\<close>: the decision returned and the records logged.\<close>

definition handle_file_access ::
  "file_monitor \<Rightarrow> filesystem \<Rightarrow> string \<Rightarrow> string \<Rightarrow> decision \<times> log_record list" where
  "handle_file_access mon fs file_path access_type =
     (let entered = (INFO, ''File '' @ access_type @ '': '' @ file_path) #
                    log_activity access_type file_path
      in case check_created_or_modified mon fs file_path access_type of
           (Some d, logged) \<Rightarrow> (d, entered @ logged)
         | (None, logged) \<Rightarrow>
             (case check_email mon fs file_path of
                (Some d, logged') \<Rightarrow> (d, entered @ logged @ logged')
              | (None, logged') \<Rightarrow>
                  (\<lparr>action = ''allow'', reason = ''No threat detected'', alert_level = ''low''\<rparr>,
                   entered @ logged @ logged')))"

section \<open>The event handler\<close>

text \<open>A watchdog event: \<open>dest_path\<close> is read for moves only.\<close>

record fs_event =
  is_directory :: bool
  src_path :: string
  dest_path :: string

text \<open>
  The callbacks of \<open>FileEventHandler\<close> drop the decisions; what remains of a call is the
  log it wrote.
\<close>

definition on_created :: "file_monitor \<Rightarrow> filesystem \<Rightarrow> fs_event \<Rightarrow> log_record list" where
  "on_created mon fs event =
     (if \<not> is_directory event then snd (handle_file_access mon fs (src_path event) ''created'')
      else [])"

definition on_modified :: "file_monitor \<Rightarrow> filesystem \<Rightarrow> fs_event \<Rightarrow> log_record list" where
  "on_modified mon fs event =
     (if \<not> is_directory event then snd (handle_file_access mon fs (src_path event) ''modified'')
      else [])"

definition on_moved :: "file_monitor \<Rightarrow> filesystem \<Rightarrow> fs_event \<Rightarrow> log_record list" where
  "on_moved mon fs event =
     (if \<not> is_directory event
      then snd (handle_file_access mon fs (src_path event) ''moved from'') @
           snd (handle_file_access mon fs (dest_path event) ''moved to'')
      else [])"

definition on_deleted :: "file_monitor \<Rightarrow> filesystem \<Rightarrow> fs_event \<Rightarrow> log_record list" where
  "on_deleted mon fs event =
     (if \<not> is_directory event then snd (handle_file_access mon fs (src_path event) ''deleted'')
      else [])"

section \<open>Starting and stopping\<close>

text \<open>
  \<open>Thread.start\<close> raises on a thread that was started before; \<open>Thread.join\<close> raises on
  one that never was.
\<close>

definition thread_start :: "thread_state \<Rightarrow> string + thread_state" where
  "thread_start t = (if t = NotStarted then Inr Alive else Inl ''threads can only be started once'')"

definition thread_join :: "thread_state \<Rightarrow> string + thread_state" where
  "thread_join t =
     (if t = NotStarted then Inl ''cannot join thread before it is started'' else Inr Finished)"

text \<open>The loop over \<open>paths_to_monitor\<close> in \<open>start_monitoring\<close>.\<close>

fun schedule_paths :: "(string \<Rightarrow> bool) \<Rightarrow> string list \<Rightarrow> string list \<times> log_record list" where
  "schedule_paths path_exists [] = ([], [])"
| "schedule_paths path_exists (path # paths) =
     (let (ws, logged) = schedule_paths path_exists paths
      in if path_exists path then (path # ws, (INFO, ''Monitoring path: '' @ path) # logged)
         else (ws, (WARNING, ''Path does not exist: '' @ path) # logged))"

text \<open>
  \<open>FileMonitor.start_monitoring\<close>: the exception raised, if any, the monitor afterwards and
  the log. \<open>path_exists\<close> is \<open>os.path.exists\<close>.
\<close>

definition start_monitoring ::
  "(string \<Rightarrow> bool) \<Rightarrow> file_monitor \<Rightarrow> string option \<times> file_monitor \<times> log_record list" where
  "start_monitoring path_exists mon =
     (if is_running mon then (None, mon, [(WARNING, ''File monitoring already running'')])
      else (let (ws, logged) = schedule_paths path_exists (paths_to_monitor mon);
                obs = (observer mon)\<lparr>watches := watches (observer mon) @ ws\<rparr>;
                begun = (INFO, ''Starting file monitoring'') # logged
            in case thread_start (observer_thread obs) of
                 Inr t \<Rightarrow>
                   (None,
                    mon\<lparr>observer := obs\<lparr>observer_thread := t\<rparr>,
                        is_running := True,
                        usb_thread := Some Alive\<rparr>,
                    begun @ [(INFO, ''File monitoring started successfully'')])
               | Inl e \<Rightarrow>
                   (Some e, mon\<lparr>observer := obs\<rparr>,
                    begun @ [(ERROR, ''Error starting file monitoring: '' @ e)])))"

text \<open>
  \<open>FileMonitor.stop_monitoring\<close>. \<open>observer.stop()\<close> asks the thread to stop and
  removes every watch; \<open>observer.join()\<close> waits for the thread.
\<close>

definition stop_monitoring :: "file_monitor \<Rightarrow> string option \<times> file_monitor \<times> log_record list" where
  "stop_monitoring mon =
     (if \<not> is_running mon then (None, mon, [(WARNING, ''File monitoring not running'')])
      else (let obs = (observer mon)\<lparr>watches := []\<rparr>
            in case thread_join (observer_thread obs) of
                 Inr t \<Rightarrow>
                   (None,
                    mon\<lparr>observer := obs\<lparr>observer_thread := t\<rparr>, is_running := False\<rparr>,
                    [(INFO, ''Stopping file monitoring''),
                     (INFO, ''File monitoring stopped successfully'')])
               | Inl e \<Rightarrow>
                   (Some e, mon\<lparr>observer := obs\<rparr>,
                    [(INFO, ''Stopping file monitoring''),
                     (ERROR, ''Error stopping file monitoring: '' @ e)])))"

section \<open>The dashboard's bounded logs\<close>






section \<open>The extension of a path\<close>

text \<open>
  What the spec calls the extension of a path, stated on the path itself rather than by
  indices: the part of the last path component from its last dot on, where the dots that
  lead the component are not counted; empty when no such dot is left.
\<close>

definition last_component :: "string \<Rightarrow> string" where
  "last_component p = rev (takeWhile (\<lambda>c. c \<noteq> CHR ''/'') (rev p))"

definition path_extension :: "string \<Rightarrow> string" where
  "path_extension p =
     (let name = dropWhile (\<lambda>c. c = CHR ''.'') (last_component p)
      in if CHR ''.'' \<in> set name
         then CHR ''.'' # rev (takeWhile (\<lambda>c. c \<noteq> CHR ''.'') (rev name))
         else [])"

section \<open>The occurrences of the keywords\<close>

text \<open>
  The spec counts the case-insensitive occurrences of each keyword of the configured set.
  The keywords of the set are those of the configured list, each once, in the order in
  which they first stand there.
\<close>

primrec each_once :: "'a list \<Rightarrow> 'a list" where
  "each_once [] = []"
| "each_once (x # xs) = x # filter (\<lambda>y. y \<noteq> x) (each_once xs)"

text \<open>
  A keyword occurs at position \<open>i\<close> of a line when the line, from \<open>i\<close> on, starts with
  the keyword up to case, that is, character by character up to \<open>ci\<close>.
\<close>

definition occurs_at :: "('c \<Rightarrow> 'c \<Rightarrow> bool) \<Rightarrow> 'c list \<Rightarrow> nat \<Rightarrow> 'c list \<Rightarrow> bool" where
  "occurs_at ci l i kw \<longleftrightarrow>
     i + length kw \<le> length l \<and> list_all2 ci kw (take (length kw) (drop i l))"

text \<open>All occurrences in a line, by position and then in the order of the keywords.\<close>

definition occurrences :: "('c \<Rightarrow> 'c \<Rightarrow> bool) \<Rightarrow> 'c list list \<Rightarrow> 'c list \<Rightarrow> (nat \<times> 'c list) list" where
  "occurrences ci kws l =
     concat (map (\<lambda>i. map (Pair i) (filter (occurs_at ci l i) (each_once kws))) [0..<Suc (length l)])"

text \<open>
  No occurrence overlaps another: each ends at or before the start of every later one.
\<close>

definition non_overlapping :: "(nat \<times> 'c list) list \<Rightarrow> bool" where
  "non_overlapping occs = sorted_wrt (\<lambda>(i, kw) (j, kw'). i + length kw \<le> j) occs"

text \<open>The text of the line at an occurrence, in the line's own casing.\<close>

definition matched_text :: "'c list \<Rightarrow> nat \<times> 'c list \<Rightarrow> 'c list" where
  "matched_text l = (\<lambda>(i, kw). take (length kw) (drop i l))"

text \<open>
  What the spec asks of the scan: one match for each occurrence, with the number of its
  line, counted from 1, and the stripped line as context.
\<close>

definition line_matches ::
  "('c \<Rightarrow> 'c \<Rightarrow> bool) \<Rightarrow> ('c \<Rightarrow> bool) \<Rightarrow> 'c list list \<Rightarrow> nat \<Rightarrow> 'c list \<Rightarrow> 'c keyword_match list" where
  "line_matches ci space kws line_num l =
     map (\<lambda>occ. \<lparr>keyword = matched_text l occ, line = line_num, context' = strip space l\<rparr>)
       (occurrences ci kws l)"

definition one_match_per_occurrence ::
  "('c \<Rightarrow> 'c \<Rightarrow> bool) \<Rightarrow> ('c \<Rightarrow> bool) \<Rightarrow> 'c list list \<Rightarrow> 'c list list \<Rightarrow> 'c keyword_match list" where
  "one_match_per_occurrence ci space kws ls =
     concat (map (\<lambda>(line_num, l). line_matches ci space kws line_num l) (enumerate 1 ls))"

section \<open>Reading the log\<close>

text \<open>
  The activity log is the records that \<open>log_activity\<close> wrote; the alerts of a level are
  the records that \<open>log_alert\<close> wrote for it, given by their messages. \<open>tag\<close> is
  \<open>LOW\<close>, \<open>MEDIUM\<close> or \<open>HIGH\<close>.
\<close>

definition activity_records :: "log_record list \<Rightarrow> log_record list" where
  "activity_records logged = filter (\<lambda>r. fst r = INFO \<and> startswith (snd r) ''ACTIVITY: '') logged"

definition alert_messages :: "string \<Rightarrow> log_record list \<Rightarrow> string list" where
  "alert_messages tag logged =
     map (\<lambda>r. drop (length (''ALERT ('' @ tag @ ''): '')) (snd r))
       (filter (\<lambda>r. startswith (snd r) (''ALERT ('' @ tag @ ''): '')) logged)"

section \<open>Facts about strings and the matcher\<close>

lemma startswith_Nil [simp]: "startswith s []"
  by (simp add: startswith_def)

lemma startswith_Cons [simp]: "startswith (c # cs) (d # ds) \<longleftrightarrow> c = d \<and> startswith cs ds"
  by (auto simp: startswith_def)

lemma startswith_Nil_Cons [simp]: "\<not> startswith [] (d # ds)"
  by (simp add: startswith_def)

lemma startswith_Nil_left [simp]: "startswith [] p \<longleftrightarrow> p = []"
  by (cases p) simp_all

lemma startswith_append_same [simp]: "startswith (p @ s) p"
  by (simp add: startswith_def)

lemma ignorecase_lower: "list_all2 ignorecase kw t \<longleftrightarrow> lower t = lower kw"
  by (induction kw arbitrary: t) (auto simp: ignorecase_def lower_def list_all2_Cons1)

lemma ci_startswith_ignorecase:
  "ci_startswith ignorecase s kw \<longleftrightarrow>
     length kw \<le> length s \<and> lower (take (length kw) s) = lower kw"
  by (simp add: ci_startswith_def ignorecase_lower)

lemma ci_startswith_lower:
  "ci_startswith ignorecase s kw \<longleftrightarrow> startswith (lower s) (lower kw)"
proof
  assume "ci_startswith ignorecase s kw"
  then show "startswith (lower s) (lower kw)"
    by (simp add: ci_startswith_ignorecase startswith_def lower_def take_map)
next
  assume h: "startswith (lower s) (lower kw)"
  then have "length (take (length kw) (map lower_char s)) = length (map lower_char kw)"
    by (simp add: startswith_def lower_def)
  then have "length kw \<le> length s" by simp
  with h show "ci_startswith ignorecase s kw"
    by (simp add: ci_startswith_ignorecase startswith_def lower_def take_map)
qed

lemma pattern_match_None:
  "pattern_match ci pat False s = None \<longleftrightarrow> (\<forall>kw\<in>set pat. \<not> ci_startswith ci s kw)"
  by (induction pat) auto

lemma finditer_nonempty:
  "finditer ignorecase pat False s \<noteq> [] \<longleftrightarrow> (\<exists>kw\<in>set pat. contains (lower s) (lower kw))"
proof (induction s)
  case Nil
  show ?case
  proof (cases "pattern_match ignorecase pat False []")
    case None
    then show ?thesis
      using pattern_match_None [of ignorecase pat "[]"]
      by (simp add: finditer.simps [of ignorecase pat False "[]"] ci_startswith_lower lower_def)
  next
    case (Some n)
    then have "\<exists>kw\<in>set pat. ci_startswith ignorecase [] kw"
      using pattern_match_None [of ignorecase pat "[]"] by auto
    with Some show ?thesis
      by (simp add: finditer.simps [of ignorecase pat False "[]"] ci_startswith_lower lower_def)
  qed
next
  case (Cons c cs)
  show ?case
  proof (cases "pattern_match ignorecase pat False (c # cs)")
    case None
    then have "\<forall>kw\<in>set pat. \<not> startswith (lower (c # cs)) (lower kw)"
      using pattern_match_None [of ignorecase pat "c # cs"] by (simp add: ci_startswith_lower)
    with None Cons.IH show ?thesis
      by (simp add: finditer.simps [of ignorecase pat False "c # cs"] lower_def)
  next
    case (Some n)
    then have "\<exists>kw\<in>set pat. startswith (lower (c # cs)) (lower kw)"
      using pattern_match_None [of ignorecase pat "c # cs"] by (auto simp: ci_startswith_lower)
    with Some show ?thesis
      by (auto simp add: finditer.simps [of ignorecase pat False "c # cs"] lower_def)
  qed
qed

lemma scan_line_nonempty:
  "scan_line ignorecase is_space pat n l \<noteq> [] \<longleftrightarrow> (\<exists>kw\<in>set pat. contains (lower l) (lower kw))"
  by (simp add: scan_line_def finditer_nonempty)

lemma scan_lines_from_nonempty:
  "concat (map (\<lambda>(n, l). scan_line ignorecase is_space pat n l) (enumerate i ls)) \<noteq> [] \<longleftrightarrow>
   (\<exists>l\<in>set ls. \<exists>kw\<in>set pat. contains (lower l) (lower kw))"
  by (induction ls arbitrary: i) (auto simp: scan_line_nonempty)

lemma scan_lines_nonempty:
  "scan_lines ignorecase is_space pat ls \<noteq> [] \<longleftrightarrow> (\<exists>l\<in>set ls. \<exists>kw\<in>set pat. contains (lower l) (lower kw))"
  unfolding scan_lines_def by (rule scan_lines_from_nonempty)

section \<open>A keyword in the content lies on a line\<close>

lemma lower_char_cases: "lower_char c = c \<or> lower_char c \<in> set lower_letters"
  by (auto simp: lower_char_def split: option.splits dest!: map_of_SomeD set_zip_rightD)

lemma lower_char_newline:
  "lower_char c = CHR 0x0A \<longleftrightarrow> c = CHR 0x0A" "lower_char c = CHR 0x0D \<longleftrightarrow> c = CHR 0x0D"
proof -
  have fixed: "lower_char (CHR 0x0A) = CHR 0x0A" "lower_char (CHR 0x0D) = CHR 0x0D"
    by (simp_all add: lower_char_def upper_letters_def lower_letters_def)
  have letters: "CHR 0x0A \<notin> set lower_letters" "CHR 0x0D \<notin> set lower_letters"
    by (simp_all add: lower_letters_def)
  show "lower_char c = CHR 0x0A \<longleftrightarrow> c = CHR 0x0A"
    using lower_char_cases [of c] fixed(1) letters(1) by auto
  show "lower_char c = CHR 0x0D \<longleftrightarrow> c = CHR 0x0D"
    using lower_char_cases [of c] fixed(2) letters(2) by auto
qed

lemma ci_startswith_Cons:
  "ci_startswith ignorecase (c # cs) (k # ks) \<longleftrightarrow> lower_char c = lower_char k \<and> ci_startswith ignorecase cs ks"
  by (auto simp: ci_startswith_ignorecase lower_def)

lemma ci_startswith_Nil: "ci_startswith ignorecase [] kw \<longleftrightarrow> kw = []"
  by (auto simp: ci_startswith_ignorecase)

lemma contains_startswith: "startswith s p \<Longrightarrow> contains s p"
  by (cases s) simp_all

lemma file_lines_LF: "file_lines (CHR 0x0A # cs) = [CHR 0x0A] # file_lines cs"
  by (cases cs) (simp_all add: file_lines_def)

lemma file_lines_CRLF: "file_lines (CHR 0x0D # CHR 0x0A # cs) = [CHR 0x0A] # file_lines cs"
  by (simp add: file_lines_def)

lemma file_lines_CR:
  "cs = [] \<or> hd cs \<noteq> CHR 0x0A \<Longrightarrow> file_lines (CHR 0x0D # cs) = [CHR 0x0A] # file_lines cs"
  by (cases cs) (auto simp: file_lines_def)

lemma file_lines_other:
  "c \<noteq> CHR 0x0D \<Longrightarrow> c \<noteq> CHR 0x0A \<Longrightarrow>
   file_lines (c # cs) = (case file_lines cs of [] \<Rightarrow> [[c]] | l # ls \<Rightarrow> (c # l) # ls)"
  by (cases cs) (simp_all add: file_lines_def)

lemma first_line_startswith:
  "kw \<noteq> [] \<Longrightarrow> CHR 0x0D \<notin> set kw \<Longrightarrow> CHR 0x0A \<notin> set kw \<Longrightarrow> ci_startswith ignorecase content kw \<Longrightarrow>
   \<exists>l ls. file_lines content = l # ls \<and> ci_startswith ignorecase l kw"
proof (induction kw arbitrary: content)
  case Nil
  then show ?case by simp
next
  case (Cons k ks)
  then obtain c cs where content: "content = c # cs"
    by (cases content) (auto simp: ci_startswith_Nil)
  have same: "lower_char c = lower_char k" and rest: "ci_startswith ignorecase cs ks"
    using Cons.prems(4) by (simp_all add: content ci_startswith_Cons)
  have plain: "c \<noteq> CHR 0x0D" "c \<noteq> CHR 0x0A"
    using same Cons.prems(2,3) lower_char_newline [of c] lower_char_newline [of k] by auto
  show ?case
  proof (cases "ks = []")
    case True
    then show ?thesis
      using same plain
      by (auto simp: content file_lines_other ci_startswith_Cons ci_startswith_ignorecase lower_def
            split: list.splits)
  next
    case False
    then obtain l ls where "file_lines cs = l # ls" "ci_startswith ignorecase l ks"
      using Cons.IH [of cs] Cons.prems(2,3) rest by auto
    then show ?thesis
      using same plain by (simp add: content file_lines_other ci_startswith_Cons)
  qed
qed

lemma keyword_in_content_on_line:
  assumes "kw \<noteq> []" and "CHR 0x0D \<notin> set kw" and "CHR 0x0A \<notin> set kw"
  shows "contains (lower content) (lower kw) \<Longrightarrow>
         \<exists>l\<in>set (file_lines content). contains (lower l) (lower kw)"
proof (induction content)
  case Nil
  then show ?case using assms(1) by (simp add: lower_def)
next
  case (Cons c cs)
  show ?case
  proof (cases "ci_startswith ignorecase (c # cs) kw")
    case True
    then obtain l ls where "file_lines (c # cs) = l # ls" "ci_startswith ignorecase l kw"
      using first_line_startswith [OF assms] by blast
    then show ?thesis
      by (auto simp: ci_startswith_lower intro: contains_startswith)
  next
    case False
    then have "contains (lower cs) (lower kw)"
      using Cons.prems by (simp add: lower_def ci_startswith_lower)
    then obtain l where l: "l \<in> set (file_lines cs)" "contains (lower l) (lower kw)"
      using Cons.IH by blast
    consider (lf) "c = CHR 0x0A" | (crlf) ds where "c = CHR 0x0D" "cs = CHR 0x0A # ds"
      | (cr) "c = CHR 0x0D" "cs = [] \<or> hd cs \<noteq> CHR 0x0A"
      | (other) "c \<noteq> CHR 0x0D" "c \<noteq> CHR 0x0A"
      by (cases cs) auto
    then show ?thesis
    proof cases
      case lf
      with l show ?thesis by (auto simp: file_lines_LF)
    next
      case crlf
      with l show ?thesis by (auto simp: file_lines_CRLF file_lines_LF)
    next
      case cr
      with l show ?thesis by (auto simp: file_lines_CR)
    next
      case other
      obtain l0 ls where split: "file_lines cs = l0 # ls"
        using l(1) by (cases "file_lines cs") auto
      show ?thesis
      proof (cases "l = l0")
        case True
        then have "contains (lower (c # l0)) (lower kw)"
          using l(2) by (simp add: lower_def)
        then show ?thesis using other split by (auto simp: file_lines_other)
      next
        case False
        then have "l \<in> set ls" using l(1) split by simp
        then show ?thesis using other split l(2) by (auto simp: file_lines_other)
      qed
    qed
  qed
qed

lemma keyword_found_on_line:
  assumes "(\<exists>l\<in>set (file_lines content). \<exists>kw\<in>set kws. contains (lower l) (lower kw)) \<or>
           (\<exists>kw\<in>set kws. kw \<noteq> [] \<and> CHR 0x0D \<notin> set kw \<and> CHR 0x0A \<notin> set kw \<and>
              contains (lower content) (lower kw))"
  shows "\<exists>l\<in>set (file_lines content). \<exists>kw\<in>set kws. contains (lower l) (lower kw)"
  using assms keyword_in_content_on_line by blast

section \<open>Facts about the log and the decision\<close>

lemma log_alert_high: "log_alert ''high'' m = [(ERROR, ''ALERT (HIGH): '' @ m)]"
  by (simp add: log_alert_def lower_def lower_char_def upper_letters_def lower_letters_def)

lemma log_alert_medium: "log_alert ''medium'' m = [(WARNING, ''ALERT (MEDIUM): '' @ m)]"
  by (simp add: log_alert_def lower_def lower_char_def upper_letters_def lower_letters_def)

lemma alert_messages_Nil [simp]: "alert_messages tag [] = []"
  by (simp add: alert_messages_def)

lemma alert_messages_append [simp]:
  "alert_messages tag (xs @ ys) = alert_messages tag xs @ alert_messages tag ys"
  by (simp add: alert_messages_def)

lemma alert_messages_Cons:
  "alert_messages tag (r # rs) =
     (if startswith (snd r) (''ALERT ('' @ tag @ ''): '')
      then drop (length (''ALERT ('' @ tag @ ''): '')) (snd r) # alert_messages tag rs
      else alert_messages tag rs)"
  by (simp add: alert_messages_def)

lemma startswith_prefix: "startswith s (p @ q) \<Longrightarrow> startswith s p"
proof -
  assume "startswith s (p @ q)"
  then have "take (length p) (take (length (p @ q)) s) = take (length p) (p @ q)"
    by (simp only: startswith_def)
  then show ?thesis
    by (simp add: startswith_def min_def)
qed

lemma alert_messages_no_alert:
  assumes "\<forall>r\<in>set logged. \<not> startswith (snd r) ''ALERT (''"
  shows "alert_messages tag logged = []"
proof -
  have "\<not> startswith (snd r) (''ALERT ('' @ tag @ ''): '')" if "r \<in> set logged" for r
    using that assms startswith_prefix [of "snd r" "''ALERT (''" "tag @ ''): ''"] by blast
  then have "filter (\<lambda>r. startswith (snd r) (''ALERT ('' @ tag @ ''): '')) logged = []"
    unfolding filter_empty_conv by blast
  then show ?thesis
    by (simp only: alert_messages_def list.map)
qed

lemma activity_records_Nil [simp]: "activity_records [] = []"
  by (simp add: activity_records_def)

lemma activity_records_append [simp]:
  "activity_records (xs @ ys) = activity_records xs @ activity_records ys"
  by (simp add: activity_records_def)

lemma activity_records_no_info:
  "\<forall>r\<in>set logged. fst r \<noteq> INFO \<Longrightarrow> activity_records logged = []"
  by (induction logged) (auto simp: activity_records_def)

text \<open>What \<open>check_file_for_sensitive_data\<close> returns.\<close>

lemma check_file_result:
  "fst (check_file_for_sensitive_data mon fs p) =
     (case fs p of
        Content text \<Rightarrow>
          (if is_text_file p \<and> scan_lines ignorecase is_space (keywords_pattern mon) (file_lines text) \<noteq> []
           then (True, scan_lines ignorecase is_space (keywords_pattern mon) (file_lines text))
           else (False, []))
      | _ \<Rightarrow> (False, []))"
  by (simp add: check_file_for_sensitive_data_def read_matches_def split: file_state.splits)

lemma check_file_logged_no_info:
  "\<forall>r\<in>set (snd (check_file_for_sensitive_data mon fs p)). fst r \<noteq> INFO"
  by (auto simp: check_file_for_sensitive_data_def split: sum.splits)

lemma check_file_logged_no_alert:
  "\<forall>r\<in>set (snd (check_file_for_sensitive_data mon fs p)). \<not> startswith (snd r) ''ALERT (''"
  by (auto simp: check_file_for_sensitive_data_def split: sum.splits)


text \<open>The decision of \<open>handle_file_access\<close> as a table.\<close>

lemma handle_file_access_decision:
  "fst (handle_file_access mon fs p a) =
     (if (a = ''created'' \<or> a = ''modified'') \<and>
         fst (fst (check_file_for_sensitive_data mon fs p)) \<and> usb_detected mon
      then \<lparr>action = ''block'', reason = ''Potential data exfiltration detected'',
            alert_level = ''high''\<rparr>
      else if (contains (lower p) ''.eml'' \<or> contains (lower p) ''email'') \<and>
              fst (fst (check_file_for_sensitive_data mon fs p))
      then \<lparr>action = ''block'', reason = ''Potential email data leak detected'',
            alert_level = ''high''\<rparr>
      else \<lparr>action = ''allow'', reason = ''No threat detected'', alert_level = ''low''\<rparr>)"
proof -
  obtain hs ms checked where c: "check_file_for_sensitive_data mon fs p = ((hs, ms), checked)"
    by (metis surj_pair)
  show ?thesis
    by (simp add: handle_file_access_def check_created_or_modified_def check_email_def Let_def c)
qed

lemma handle_file_access_alerts:
  "alert_messages tag (snd (handle_file_access mon fs p a)) =
     (if (a = ''created'' \<or> a = ''modified'') \<and>
         fst (fst (check_file_for_sensitive_data mon fs p))
      then alert_messages tag
             (log_alert (if usb_detected mon then ''high'' else ''medium'')
                (''Sensitive data found in file: '' @ p))
      else []) @
     (if \<not> ((a = ''created'' \<or> a = ''modified'') \<and>
             fst (fst (check_file_for_sensitive_data mon fs p)) \<and> usb_detected mon) \<and>
         (contains (lower p) ''.eml'' \<or> contains (lower p) ''email'') \<and>
         fst (fst (check_file_for_sensitive_data mon fs p))
      then alert_messages tag (log_alert ''high'' (''Potential email data leak detected: '' @ p))
      else [])"
proof -
  obtain hs ms checked where c: "check_file_for_sensitive_data mon fs p = ((hs, ms), checked)"
    by (metis surj_pair)
  have quiet: "alert_messages tag checked = []"
    using alert_messages_no_alert [OF check_file_logged_no_alert, of tag mon fs p] c by simp
  show ?thesis
    by (simp add: handle_file_access_def check_created_or_modified_def check_email_def Let_def
          c quiet log_activity_def alert_messages_Cons)
qed

lemma handle_file_access_activity:
  "activity_records (snd (handle_file_access mon fs p a)) = log_activity a p"
proof -
  obtain hs ms checked where c: "check_file_for_sensitive_data mon fs p = ((hs, ms), checked)"
    by (metis surj_pair)
  have quiet: "activity_records checked = []"
    using activity_records_no_info [OF check_file_logged_no_info, of mon fs p] c by simp
  have entered: "activity_records ((INFO, ''File '' @ a @ '': '' @ p) # log_activity a p) =
      log_activity a p"
    by (simp add: activity_records_def log_activity_def)
  have alerted: "activity_records (log_alert ''high'' m) = []"
       "activity_records (log_alert ''medium'' m) = []" for m
    by (simp_all add: activity_records_def log_alert_high log_alert_medium)
  have raised: "activity_records [(ERROR, m)] = []" for m
    by (simp add: activity_records_def)
  show ?thesis
    unfolding handle_file_access_def check_created_or_modified_def check_email_def Let_def c
    by (simp add: quiet entered alerted raised del: append.simps list.simps)
qed


lemma has_sensitive_iff:
  "fst (fst (check_file_for_sensitive_data mon fs p)) \<longleftrightarrow>
     is_text_file p \<and>
     (\<exists>text. fs p = Content text \<and>
        (\<exists>l\<in>set (file_lines text). \<exists>kw\<in>set (keywords_pattern mon).
           contains (lower l) (lower kw)))"
  by (simp add: check_file_result scan_lines_nonempty split: file_state.splits)

lemma alert_messages_high [simp]:
  "alert_messages ''HIGH'' (log_alert ''high'' m) = [m]"
  "alert_messages ''MEDIUM'' (log_alert ''high'' m) = []"
  "alert_messages ''LOW'' (log_alert ''high'' m) = []"
  by (simp_all add: log_alert_high alert_messages_Cons)

lemma alert_messages_medium [simp]:
  "alert_messages ''HIGH'' (log_alert ''medium'' m) = []"
  "alert_messages ''MEDIUM'' (log_alert ''medium'' m) = [m]"
  "alert_messages ''LOW'' (log_alert ''medium'' m) = []"
  by (simp_all add: log_alert_medium alert_messages_Cons)

section \<open>Facts about the scan\<close>

lemma set_each_once [simp]: "set (each_once xs) = set xs"
  by (induction xs) auto

lemma distinct_each_once [simp]: "distinct (each_once xs)"
  by (induction xs) auto

lemma occurs_at_0: "occurs_at ci l 0 kw \<longleftrightarrow> ci_startswith ci l kw"
  by (simp add: occurs_at_def ci_startswith_def)

lemma occurs_at_Suc: "occurs_at ci (c # cs) (Suc i) kw \<longleftrightarrow> occurs_at ci cs i kw"
  by (simp add: occurs_at_def)

lemma occurrences_iff:
  "(i, kw) \<in> set (occurrences ci kws l) \<longleftrightarrow>
     kw \<in> set kws \<and> i + length kw \<le> length l \<and>
     list_all2 ci kw (take (length kw) (drop i l))"
  by (auto simp: occurrences_def occurs_at_def simp del: upt_Suc)

lemma occurrences_Nil:
  "occurrences ci kws [] = map (Pair 0) (filter (ci_startswith ci []) (each_once kws))"
  by (simp add: occurrences_def occurs_at_0 [abs_def])

lemma occurrences_shift:
  "concat (map (\<lambda>i. map (Pair i) (filter (occurs_at ci (c # cs) i) kws)) (map Suc xs)) =
   map (\<lambda>(i, kw). (Suc i, kw))
     (concat (map (\<lambda>i. map (Pair i) (filter (occurs_at ci cs i) kws)) xs))"
  by (induction xs) (simp_all add: occurs_at_Suc [abs_def])

lemma occurrences_Cons:
  "occurrences ci kws (c # cs) =
     map (Pair 0) (filter (ci_startswith ci (c # cs)) (each_once kws)) @
     map (\<lambda>(i, kw). (Suc i, kw)) (occurrences ci kws cs)"
proof -
  let ?F = "\<lambda>i. map (Pair i) (filter (occurs_at ci (c # cs) i) (each_once kws))"
  have upt: "[0..<Suc (Suc (length cs))] = 0 # map Suc [0..<Suc (length cs)]"
    by (simp only: map_Suc_upt upt_conv_Cons [of 0 "Suc (Suc (length cs))"])
  have "occurrences ci kws (c # cs) = concat (map ?F (0 # map Suc [0..<Suc (length cs)]))"
    by (simp only: occurrences_def length_Cons upt)
  also have "\<dots> = ?F 0 @ concat (map ?F (map Suc [0..<Suc (length cs)]))"
    by (simp only: list.map concat.simps)
  also have "\<dots> = ?F 0 @ map (\<lambda>(i, kw). (Suc i, kw)) (occurrences ci kws cs)"
    by (simp only: occurrences_shift occurrences_def)
  also have "?F 0 = map (Pair 0) (filter (ci_startswith ci (c # cs)) (each_once kws))"
    by (simp add: occurs_at_0 [abs_def])
  finally show ?thesis .
qed

lemma pattern_match_filter:
  "pattern_match ci pat adv s =
     (case filter (\<lambda>kw. ci_startswith ci s kw \<and> \<not> (adv \<and> kw = [])) pat of
        [] \<Rightarrow> None
      | kw # _ \<Rightarrow> Some (length kw))"
  by (induction pat) auto

lemma filter_swap: "filter P (filter Q xs) = filter Q (filter P xs)"
  by (induction xs) auto

lemma filter_each_once: "filter P (each_once xs) = each_once (filter P xs)"
proof (induction xs)
  case Nil
  show ?case by simp
next
  case (Cons a xs)
  have moved: "filter P (filter (\<lambda>y. y \<noteq> a) (each_once xs)) =
      filter (\<lambda>y. y \<noteq> a) (each_once (filter P xs))"
    using Cons.IH by (simp only: filter_swap [of P])
  show ?case
  proof (cases "P a")
    case True
    then show ?thesis using moved by simp
  next
    case False
    then have "filter (\<lambda>y. y \<noteq> a) (each_once (filter P xs)) = each_once (filter P xs)"
      by (auto simp: filter_id_conv)
    with False moved show ?thesis by simp
  qed
qed

lemma hd_each_once: "each_once xs = [] \<longleftrightarrow> xs = []" "xs \<noteq> [] \<Longrightarrow> hd (each_once xs) = hd xs"
  by (cases xs; simp)+

lemma pattern_match_each_once:
  "pattern_match ci (each_once pat) adv s = pattern_match ci pat adv s"
proof -
  let ?P = "\<lambda>kw. ci_startswith ci s kw \<and> \<not> (adv \<and> kw = [])"
  show ?thesis
    by (cases "filter ?P pat") (simp_all add: pattern_match_filter filter_each_once)
qed


lemma occurrences_from:
  "m \<le> length s \<Longrightarrow>
   filter (\<lambda>(j, kw). m \<le> j) (occurrences ci kws s) =
     map (\<lambda>(j, kw). (j + m, kw)) (occurrences ci kws (drop m s))"
proof (induction m arbitrary: s)
  case 0
  then show ?case by simp
next
  case (Suc m)
  then obtain c cs where s: "s = c # cs" by (cases s) auto
  have "filter (\<lambda>(j, kw). Suc m \<le> j) (map (\<lambda>(i, kw). (Suc i, kw)) (occurrences ci kws cs)) =
      map (\<lambda>(i, kw). (Suc i, kw)) (filter (\<lambda>(j, kw). m \<le> j) (occurrences ci kws cs))"
    by (simp add: filter_map comp_def case_prod_unfold)
  also have "\<dots> =
      map (\<lambda>(i, kw). (Suc i, kw)) (map (\<lambda>(j, kw). (j + m, kw)) (occurrences ci kws (drop m cs)))"
    using Suc.IH [of cs] Suc.prems s by simp
  finally show ?case
    by (simp add: s occurrences_Cons filter_map comp_def case_prod_unfold)
qed

lemma non_overlapping_shift:
  "non_overlapping (map (\<lambda>(j, kw). (j + m, kw)) occs) = non_overlapping occs"
  by (simp add: non_overlapping_def sorted_wrt_map case_prod_unfold)

lemma non_overlapping_append:
  "non_overlapping (xs @ ys) \<Longrightarrow> non_overlapping ys"
  by (simp add: non_overlapping_def sorted_wrt_append)

text \<open>The occurrences of a string: those at its start, then those further on.\<close>

lemma occurrences_heads:
  "\<exists>later.
     occurrences ci pat s = map (Pair 0) (filter (ci_startswith ci s) (each_once pat)) @ later \<and>
     (\<forall>(j, kw)\<in>set later. 0 < j) \<and>
     (\<forall>c cs. s = c # cs \<longrightarrow> later = map (\<lambda>(i, kw). (Suc i, kw)) (occurrences ci pat cs)) \<and>
     (s = [] \<longrightarrow> later = [])"
  by (cases s) (auto simp: occurrences_Nil occurrences_Cons)

lemma filter_heads_later:
  "\<forall>(j, kw)\<in>set later. (0::nat) < j \<Longrightarrow>
   filter (\<lambda>(i, kw). \<not> (a \<and> i = 0 \<and> kw = [])) (map (Pair 0) hs @ later) =
     map (Pair 0) (filter (\<lambda>kw. \<not> (a \<and> kw = [])) hs) @ later"
proof -
  assume "\<forall>(j, kw)\<in>set later. (0::nat) < j"
  then have far: "filter (\<lambda>(i, kw). \<not> (a \<and> i = 0 \<and> kw = [])) later = later"
    by (intro filter_True) fastforce
  have near: "filter (\<lambda>(i, kw). \<not> (a \<and> i = 0 \<and> kw = [])) (map (Pair (0::nat)) hs) =
      map (Pair 0) (filter (\<lambda>kw. \<not> (a \<and> kw = [])) hs)"
    by (induction hs) auto
  show ?thesis by (simp only: filter_append far near)
qed

lemma finditer_occurrences:
  "non_overlapping (occurrences ci pat s) \<Longrightarrow>
   finditer ci pat adv s =
     map (matched_text s)
       (filter (\<lambda>(i, kw). \<not> (adv \<and> i = 0 \<and> kw = [])) (occurrences ci pat s))"
proof (induction ci pat adv s rule: finditer.induct)
  case (1 ci pat adv s)
  note apart = "1.prems"
  define heads where "heads = filter (ci_startswith ci s) (each_once pat)"
  define keep where "keep = (\<lambda>kw::'a list. \<not> (adv \<and> kw = []))"
  obtain later where occ: "occurrences ci pat s = map (Pair 0) heads @ later"
    and later_pos: "\<forall>(j, kw)\<in>set later. 0 < j"
    and later_Cons: "\<forall>c cs. s = c # cs \<longrightarrow>
          later = map (\<lambda>(i, kw). (Suc i, kw)) (occurrences ci pat cs)"
    and later_Nil: "s = [] \<longrightarrow> later = []"
    unfolding heads_def using occurrences_heads [of ci pat s] by blast
  have kept: "filter (\<lambda>(i, kw). \<not> (a \<and> i = 0 \<and> kw = [])) (occurrences ci pat s) =
      map (Pair 0) (filter (\<lambda>kw. \<not> (a \<and> kw = [])) heads) @ later" for a
    unfolding occ by (rule filter_heads_later [OF later_pos])
  have expected:
    "filter (\<lambda>(i, kw). \<not> (adv \<and> i = 0 \<and> kw = [])) (occurrences ci pat s) =
       map (Pair 0) (filter keep heads) @ later"
    unfolding keep_def by (rule kept)
  have "pattern_match ci pat adv s =
      (case filter (\<lambda>kw. ci_startswith ci s kw \<and> \<not> (adv \<and> kw = [])) (each_once pat) of
         [] \<Rightarrow> None | kw # _ \<Rightarrow> Some (length kw))"
    using pattern_match_filter [of ci "each_once pat" adv s] by (simp add: pattern_match_each_once)
  moreover have "filter (\<lambda>kw. ci_startswith ci s kw \<and> \<not> (adv \<and> kw = [])) (each_once pat) =
      filter keep heads"
    by (simp add: heads_def keep_def conj_commute)
  ultimately have pm: "pattern_match ci pat adv s =
      (case filter keep heads of [] \<Rightarrow> None | kw # _ \<Rightarrow> Some (length kw))"
    by simp
  show ?case
  proof (cases "filter keep heads")
    case Nil
    then have none: "pattern_match ci pat adv s = None" using pm by simp
    show ?thesis
    proof (cases s)
      case Nil
      with none \<open>filter keep heads = []\<close> expected later_Nil show ?thesis
        by (simp add: finditer.simps [of ci pat adv "[]"])
    next
      case (Cons c cs)
      have later: "later = map (\<lambda>(i, kw). (Suc i, kw)) (occurrences ci pat cs)"
        using later_Cons Cons by blast
      have "non_overlapping later"
        using apart unfolding occ by (rule non_overlapping_append)
      then have "non_overlapping (occurrences ci pat cs)"
        using non_overlapping_shift [of 1 "occurrences ci pat cs"] by (simp add: later)
      then have "finditer ci pat False cs =
          map (matched_text cs)
            (filter (\<lambda>(i, kw). \<not> (False \<and> i = 0 \<and> kw = [])) (occurrences ci pat cs))"
        by (rule "1.IH"(1) [OF none Cons])
      then have "finditer ci pat False cs = map (matched_text s) later"
        by (simp add: later Cons matched_text_def comp_def case_prod_unfold)
      then show ?thesis
        using none Cons \<open>filter keep heads = []\<close> expected
        by (simp add: finditer.simps [of ci pat adv "c # cs"])
    qed
  next
    case (Cons h hs)
    define n where "n = length h"
    have some: "pattern_match ci pat adv s = Some n"
      using pm Cons by (simp add: n_def)
    obtain pre post where heads: "heads = pre @ h # post"
      and pre: "\<forall>u\<in>set pre. \<not> keep u" and h: "keep h" and hs: "hs = filter keep post"
      using Cons unfolding filter_eq_Cons_iff by blast
    have "h \<in> set heads" using heads by simp
    then have "ci_startswith ci s h" by (simp add: heads_def)
    then have n_le: "n \<le> length s" by (simp add: ci_startswith_def n_def)
    have step: "finditer ci pat adv s = take n s # finditer ci pat (n = 0) (drop n s)"
      using some by (simp add: finditer.simps [of ci pat adv s])
    show ?thesis
    proof (cases "n = 0")
      case True
      then have empty: "h = []" by (simp add: n_def)
      with h have adv: "\<not> adv" by (simp add: keep_def)
      then have "pre = []" using pre by (cases pre) (auto simp: keep_def)
      then have heads': "heads = [] # post" using heads empty by simp
      have "distinct heads" by (simp add: heads_def)
      then have "[] \<notin> set post" using heads' by simp
      then have post: "filter (\<lambda>kw. kw \<noteq> []) post = post"
        by (auto simp: filter_id_conv)
      have "finditer ci pat (n = 0) (drop n s) =
          map (matched_text (drop n s))
            (filter (\<lambda>(i, kw). \<not> ((n = 0) \<and> i = 0 \<and> kw = [])) (occurrences ci pat (drop n s)))"
        using apart True by (intro "1.IH"(2) [OF some]) simp
      then have "finditer ci pat (n = 0) (drop n s) =
          map (matched_text s) (map (Pair 0) post @ later)"
        using True kept [of True] post by (simp add: heads')
      then show ?thesis
        using step True adv expected
        by (simp add: keep_def heads' matched_text_def)
    next
      case False
      then have pos: "0 < n" by simp
      have "sorted_wrt (\<lambda>(i, kw) (j, kw'). i + length kw \<le> j)
          (map (Pair 0) pre @ (0, h) # (map (Pair 0) post @ later))"
        using apart by (simp add: non_overlapping_def occ heads)
      then have after: "\<forall>(j, kw)\<in>set (map (Pair 0) post @ later). n \<le> j"
        and rest: "non_overlapping (map (Pair 0) post @ later)"
        by (auto simp: sorted_wrt_append non_overlapping_def n_def)
      have "post = []"
      proof (cases post)
        case Nil
        then show ?thesis .
      next
        case (Cons x xs)
        then have "n \<le> 0" using after by simp
        with pos show ?thesis by simp
      qed
      then have hs_Nil: "hs = []" using hs by simp
      have later_from: "\<forall>(j, kw)\<in>set later. n \<le> j"
        using after by auto
      have "filter (\<lambda>(j, kw). n \<le> j) (occurrences ci pat s) = later"
        using later_from pos by (auto simp: occ filter_id_conv filter_empty_conv)
      then have later: "later = map (\<lambda>(j, kw). (j + n, kw)) (occurrences ci pat (drop n s))"
        using occurrences_from [OF n_le, of ci pat] by simp
      have "non_overlapping later" using rest by (rule non_overlapping_append)
      then have "non_overlapping (occurrences ci pat (drop n s))"
        by (simp add: later non_overlapping_shift)
      then have "finditer ci pat (n = 0) (drop n s) =
          map (matched_text (drop n s))
            (filter (\<lambda>(i, kw). \<not> ((n = 0) \<and> i = 0 \<and> kw = [])) (occurrences ci pat (drop n s)))"
        by (rule "1.IH"(2) [OF some])
      then have "finditer ci pat (n = 0) (drop n s) = map (matched_text s) later"
        using False
        by (simp add: later matched_text_def comp_def case_prod_unfold add.commute)
      then show ?thesis
        using step expected by (simp add: Cons hs_Nil matched_text_def n_def)
    qed
  qed
qed


lemma pattern_match_Some:
  "pattern_match ci pat adv s = Some n \<Longrightarrow> \<exists>kw\<in>set pat. ci_startswith ci s kw \<and> n = length kw"
  by (induction pat) (auto split: if_splits)

lemma occurrences_later:
  assumes "(i, kw) \<in> set (occurrences ci pat (drop n s))" and "n \<le> length s"
  shows "(i + n, kw) \<in> set (occurrences ci pat s)"
    and "matched_text s (i + n, kw) = matched_text (drop n s) (i, kw)"
  using assms by (auto simp: occurrences_iff matched_text_def add.commute)

lemma finditer_sound:
  "set (finditer ci pat adv s) \<subseteq> matched_text s ` set (occurrences ci pat s)"
proof (induction ci pat adv s rule: finditer.induct)
  case (1 ci pat adv s)
  show ?case
  proof (cases "pattern_match ci pat adv s")
    case None
    show ?thesis
    proof (cases s)
      case Nil
      with None show ?thesis by (simp add: finditer.simps [of ci pat adv "[]"])
    next
      case (Cons c cs)
      have "x \<in> matched_text s ` set (occurrences ci pat s)"
        if x: "x \<in> set (finditer ci pat False cs)" for x
      proof -
        obtain i kw where "(i, kw) \<in> set (occurrences ci pat cs)" "x = matched_text cs (i, kw)"
          using x "1.IH"(1) [OF None Cons] by auto
        then show ?thesis
          using occurrences_later [of i kw ci pat 1 s] Cons
          by (intro image_eqI [where x = "(i + 1, kw)"]) auto
      qed
      with None Cons show ?thesis
        by (auto simp: finditer.simps [of ci pat adv "c # cs"])
    qed
  next
    case (Some n)
    then obtain kw where kw: "kw \<in> set pat" "ci_startswith ci s kw" "n = length kw"
      using pattern_match_Some by blast
    then have "(0, kw) \<in> set (occurrences ci pat s)"
      by (simp add: occurrences_iff ci_startswith_def)
    then have first: "take n s \<in> matched_text s ` set (occurrences ci pat s)"
      using kw(3) by (force simp: matched_text_def image_iff)
    have n: "n \<le> length s" using kw by (simp add: ci_startswith_def)
    have "x \<in> matched_text s ` set (occurrences ci pat s)"
      if x: "x \<in> set (finditer ci pat (n = 0) (drop n s))" for x
    proof -
      obtain i k where "(i, k) \<in> set (occurrences ci pat (drop n s))"
          "x = matched_text (drop n s) (i, k)"
        using x "1.IH"(2) [OF Some] by auto
      then show ?thesis
        using occurrences_later [of i k ci pat n s] n
        by (intro image_eqI [where x = "(i + n, k)"]) auto
    qed
    with first Some show ?thesis
      by (auto simp: finditer.simps [of ci pat adv s])
  qed
qed

lemma scan_line_sound:
  "set (scan_line ci space pat n l) \<subseteq> set (line_matches ci space pat n l)"
  using finditer_sound [of ci pat False l] by (auto simp: scan_line_def line_matches_def)

lemma scan_line_complete:
  "non_overlapping (occurrences ci pat l) \<Longrightarrow>
   scan_line ci space pat n l = line_matches ci space pat n l"
  using finditer_occurrences [of ci pat l False]
  by (simp add: scan_line_def line_matches_def)

lemma scan_lines_from_sound:
  "set (concat (map (\<lambda>(n, l). scan_line ci space pat n l) (enumerate i ls))) \<subseteq>
   set (concat (map (\<lambda>(n, l). line_matches ci space pat n l) (enumerate i ls)))"
proof (induction ls arbitrary: i)
  case Nil
  show ?case by simp
next
  case (Cons l ls)
  have here: "set (scan_line ci space pat i l) \<subseteq> set (line_matches ci space pat i l)"
    by (rule scan_line_sound)
  show ?case
    using Un_mono [OF here Cons.IH [of "Suc i"]] by (simp del: set_concat)
qed

lemma scan_lines_from_complete:
  "\<forall>l\<in>set ls. non_overlapping (occurrences ci pat l) \<Longrightarrow>
   concat (map (\<lambda>(n, l). scan_line ci space pat n l) (enumerate i ls)) =
   concat (map (\<lambda>(n, l). line_matches ci space pat n l) (enumerate i ls))"
  by (induction ls arbitrary: i) (simp_all add: scan_line_complete)

text \<open>
  The scan never reports more matches than there are occurrences, and it reports fewer
  when two occurrences of a line overlap.
\<close>

lemma non_overlapping_Cons:
  "non_overlapping ((i, kw) # occs) \<longleftrightarrow>
     (\<forall>(j, kw')\<in>set occs. i + length kw \<le> j) \<and> non_overlapping occs"
  by (auto simp: non_overlapping_def)

lemma finditer_length:
  "length (finditer ci pat adv s) \<le>
     length (filter (\<lambda>(i, kw). \<not> (adv \<and> i = 0 \<and> kw = [])) (occurrences ci pat s)) \<and>
   (\<not> non_overlapping (filter (\<lambda>(i, kw). \<not> (adv \<and> i = 0 \<and> kw = [])) (occurrences ci pat s)) \<longrightarrow>
    length (finditer ci pat adv s) <
      length (filter (\<lambda>(i, kw). \<not> (adv \<and> i = 0 \<and> kw = [])) (occurrences ci pat s)))"
proof (induction ci pat adv s rule: finditer.induct)
  case (1 ci pat adv s)
  define heads where "heads = filter (ci_startswith ci s) (each_once pat)"
  define keep where "keep = (\<lambda>kw::'a list. \<not> (adv \<and> kw = []))"
  obtain later where occ: "occurrences ci pat s = map (Pair 0) heads @ later"
    and later_pos: "\<forall>(j, kw)\<in>set later. 0 < j"
    and later_Cons: "\<forall>c cs. s = c # cs \<longrightarrow>
          later = map (\<lambda>(i, kw). (Suc i, kw)) (occurrences ci pat cs)"
    and later_Nil: "s = [] \<longrightarrow> later = []"
    unfolding heads_def using occurrences_heads [of ci pat s] by blast
  have kept: "filter (\<lambda>(i, kw). \<not> (a \<and> i = 0 \<and> kw = [])) (occurrences ci pat s) =
      map (Pair 0) (filter (\<lambda>kw. \<not> (a \<and> kw = [])) heads) @ later" for a
    unfolding occ by (rule filter_heads_later [OF later_pos])
  define E where "E = filter (\<lambda>(i, kw). \<not> (adv \<and> i = 0 \<and> kw = [])) (occurrences ci pat s)"
  have expected: "E = map (Pair 0) (filter keep heads) @ later"
    unfolding keep_def E_def by (rule kept)
  have "pattern_match ci pat adv s =
      (case filter (\<lambda>kw. ci_startswith ci s kw \<and> \<not> (adv \<and> kw = [])) (each_once pat) of
         [] \<Rightarrow> None | kw # _ \<Rightarrow> Some (length kw))"
    using pattern_match_filter [of ci "each_once pat" adv s] by (simp add: pattern_match_each_once)
  moreover have "filter (\<lambda>kw. ci_startswith ci s kw \<and> \<not> (adv \<and> kw = [])) (each_once pat) =
      filter keep heads"
    by (simp add: heads_def keep_def conj_commute)
  ultimately have pm: "pattern_match ci pat adv s =
      (case filter keep heads of [] \<Rightarrow> None | kw # _ \<Rightarrow> Some (length kw))"
    by simp
  have "length (finditer ci pat adv s) \<le> length E \<and>
      (\<not> non_overlapping E \<longrightarrow> length (finditer ci pat adv s) < length E)"
  proof (cases "filter keep heads")
    case Nil
    then have none: "pattern_match ci pat adv s = None" using pm by simp
    show ?thesis
    proof (cases s)
      case Nil
      with none \<open>filter keep heads = []\<close> expected later_Nil show ?thesis
        by (simp add: finditer.simps [of ci pat adv "[]"] non_overlapping_def)
    next
      case (Cons c cs)
      have later: "later = map (\<lambda>(i, kw). (Suc i, kw)) (occurrences ci pat cs)"
        using later_Cons Cons by blast
      have E: "E = later" using expected \<open>filter keep heads = []\<close> by simp
      have same: "non_overlapping later = non_overlapping (occurrences ci pat cs)"
        using non_overlapping_shift [of 1 "occurrences ci pat cs"] by (simp add: later)
      have step: "finditer ci pat adv s = finditer ci pat False cs"
        using none Cons by (simp add: finditer.simps [of ci pat adv "c # cs"])
      have "length (finditer ci pat False cs) \<le> length (occurrences ci pat cs) \<and>
          (\<not> non_overlapping (occurrences ci pat cs) \<longrightarrow>
           length (finditer ci pat False cs) < length (occurrences ci pat cs))"
        using "1.IH"(1) [OF none Cons] by simp
      then show ?thesis
        by (simp add: step E same) (simp add: later)
    qed
  next
    case (Cons h hs)
    define n where "n = length h"
    have some: "pattern_match ci pat adv s = Some n"
      using pm Cons by (simp add: n_def)
    obtain pre post where heads: "heads = pre @ h # post"
      and pre: "\<forall>u\<in>set pre. \<not> keep u" and h: "keep h" and hs: "hs = filter keep post"
      using Cons unfolding filter_eq_Cons_iff by blast
    have "h \<in> set heads" using heads by simp
    then have "ci_startswith ci s h" by (simp add: heads_def)
    then have n_le: "n \<le> length s" by (simp add: ci_startswith_def n_def)
    have step: "finditer ci pat adv s = take n s # finditer ci pat (n = 0) (drop n s)"
      using some by (simp add: finditer.simps [of ci pat adv s])
    have E: "E = (0, h) # (map (Pair 0) hs @ later)"
      using expected Cons by simp
    show ?thesis
    proof (cases "n = 0")
      case True
      then have empty: "h = []" by (simp add: n_def)
      with h have adv: "\<not> adv" by (simp add: keep_def)
      then have "pre = []" using pre by (cases pre) (auto simp: keep_def)
      then have heads': "heads = [] # post" using heads empty by simp
      have "distinct heads" by (simp add: heads_def)
      then have "[] \<notin> set post" using heads' by simp
      then have post: "filter (\<lambda>kw. kw \<noteq> []) post = post"
        by (auto simp: filter_id_conv)
      have hs_post: "hs = post" using hs adv by (simp add: keep_def)
      define E' where "E' = map (Pair (0::nat)) post @ later"
      have inner: "filter (\<lambda>(i, kw). \<not> ((n = 0) \<and> i = 0 \<and> kw = [])) (occurrences ci pat (drop n s)) = E'"
        using True kept [of True] post by (simp add: heads' E'_def)
      have "length (finditer ci pat (n = 0) (drop n s)) \<le> length E' \<and>
          (\<not> non_overlapping E' \<longrightarrow> length (finditer ci pat (n = 0) (drop n s)) < length E')"
        using "1.IH"(2) [OF some] unfolding inner .
      moreover have "E = (0, []) # E'" using E empty hs_post by (simp add: E'_def)
      moreover have "non_overlapping ((0, []) # E') = non_overlapping E'"
        by (auto simp: non_overlapping_Cons)
      ultimately show ?thesis using step by simp
    next
      case False
      then have pos: "0 < n" by simp
      define rest where "rest = map (Pair (0::nat)) hs @ later"
      have E_rest: "E = (0, h) # rest" using E by (simp add: rest_def)
      have from_n: "filter (\<lambda>(j, kw). n \<le> j) (occurrences ci pat s) =
          map (\<lambda>(j, kw). (j + n, kw)) (occurrences ci pat (drop n s))"
        by (rule occurrences_from [OF n_le])
      have "filter (\<lambda>(j, kw). n \<le> j) (occurrences ci pat s) = filter (\<lambda>(j, kw). n \<le> j) later"
        using pos by (simp add: occ filter_empty_conv)
      moreover have "filter (\<lambda>(j, kw). n \<le> j) rest = filter (\<lambda>(j, kw). n \<le> j) later"
        using pos by (simp add: rest_def filter_empty_conv)
      ultimately have far: "filter (\<lambda>(j, kw). n \<le> j) rest =
          map (\<lambda>(j, kw). (j + n, kw)) (occurrences ci pat (drop n s))"
        using from_n by simp
      have ih: "length (finditer ci pat False (drop n s)) \<le> length (occurrences ci pat (drop n s)) \<and>
          (\<not> non_overlapping (occurrences ci pat (drop n s)) \<longrightarrow>
           length (finditer ci pat False (drop n s)) < length (occurrences ci pat (drop n s)))"
        using "1.IH"(2) [OF some] False by simp
      have len_far: "length (occurrences ci pat (drop n s)) = length (filter (\<lambda>(j, kw). n \<le> j) rest)"
        by (simp add: far)
      have le: "length (filter (\<lambda>(j, kw). n \<le> j) rest) \<le> length rest" by simp
      have strict: "length (finditer ci pat False (drop n s)) < length rest"
        if bad: "\<not> non_overlapping ((0, h) # rest)"
      proof (cases "\<forall>(j, kw)\<in>set rest. n \<le> j")
        case True
        then have all: "filter (\<lambda>(j, kw). n \<le> j) rest = rest"
          by (auto simp: filter_id_conv)
        have "\<not> non_overlapping rest"
          using bad True by (auto simp: non_overlapping_Cons n_def)
        then have "\<not> non_overlapping (occurrences ci pat (drop n s))"
          using far all non_overlapping_shift [of n "occurrences ci pat (drop n s)"] by simp
        then show ?thesis using ih len_far all by simp
      next
        case False
        then have "length (filter (\<lambda>(j, kw). n \<le> j) rest) < length rest"
          by (auto simp: length_filter_less)
        then show ?thesis using ih len_far by simp
      qed
      have bound: "length (finditer ci pat False (drop n s)) \<le> length rest"
        using ih len_far le by linarith
      have len_step: "length (finditer ci pat adv s) = Suc (length (finditer ci pat False (drop n s)))"
        using step False by simp
      have len_E: "length E = Suc (length rest)" by (simp add: E_rest)
      show ?thesis
      proof (intro conjI impI)
        show "length (finditer ci pat adv s) \<le> length E"
          using bound len_step len_E by linarith
      next
        assume "\<not> non_overlapping E"
        then have "\<not> non_overlapping ((0, h) # rest)" by (simp add: E_rest)
        then have "length (finditer ci pat False (drop n s)) < length rest" by (rule strict)
        then show "length (finditer ci pat adv s) < length E"
          using len_step len_E by linarith
      qed
    qed
  qed
  then show ?case unfolding E_def .
qed


lemma scan_line_length:
  "length (scan_line ci space pat n l) \<le> length (line_matches ci space pat n l) \<and>
   (\<not> non_overlapping (occurrences ci pat l) \<longrightarrow>
    length (scan_line ci space pat n l) < length (line_matches ci space pat n l))"
  using finditer_length [of ci pat False l] by (simp add: scan_line_def line_matches_def)

lemma scan_lines_from_length:
  "length (concat (map (\<lambda>(n, l). scan_line ci space pat n l) (enumerate i ls))) \<le>
   length (concat (map (\<lambda>(n, l). line_matches ci space pat n l) (enumerate i ls)))"
proof (induction ls arbitrary: i)
  case Nil
  show ?case by simp
next
  case (Cons l ls)
  have "length (scan_line ci space pat i l) \<le> length (line_matches ci space pat i l)"
    using scan_line_length [of ci space pat i l] by simp
  then show ?case using Cons.IH [of "Suc i"] by simp
qed

lemma scan_lines_from_overlap:
  "\<exists>l\<in>set ls. \<not> non_overlapping (occurrences ci pat l) \<Longrightarrow>
   length (concat (map (\<lambda>(n, l). scan_line ci space pat n l) (enumerate i ls))) <
   length (concat (map (\<lambda>(n, l). line_matches ci space pat n l) (enumerate i ls)))"
proof (induction ls arbitrary: i)
  case Nil
  then show ?case by simp
next
  case (Cons l ls)
  have here: "length (scan_line ci space pat i l) \<le> length (line_matches ci space pat i l)"
    using scan_line_length [of ci space pat i l] by simp
  have rest: "length (concat (map (\<lambda>(n, l). scan_line ci space pat n l) (enumerate (Suc i) ls))) \<le>
      length (concat (map (\<lambda>(n, l). line_matches ci space pat n l) (enumerate (Suc i) ls)))"
    by (rule scan_lines_from_length)
  show ?case
  proof (cases "non_overlapping (occurrences ci pat l)")
    case True
    then have "\<exists>l\<in>set ls. \<not> non_overlapping (occurrences ci pat l)"
      using Cons.prems by simp
    then have "length (concat (map (\<lambda>(n, l). scan_line ci space pat n l) (enumerate (Suc i) ls))) <
        length (concat (map (\<lambda>(n, l). line_matches ci space pat n l) (enumerate (Suc i) ls)))"
      by (rule Cons.IH)
    then show ?thesis using here by simp
  next
    case False
    then have "length (scan_line ci space pat i l) < length (line_matches ci space pat i l)"
      using scan_line_length [of ci space pat i l] by simp
    then show ?thesis using rest by simp
  qed
qed

section \<open>The scan reports the occurrences\<close>

text \<open>
  C4, as amended. Take any keywords and any lines of text, whatever characters
  \<open>re.IGNORECASE\<close> lets match (\<open>ci\<close>) and \<open>str.isspace\<close> holds for (\<open>space\<close>). When, on
  every line, no occurrence of a keyword overlaps another, the scan returns exactly one
  match per case-insensitive occurrence of each keyword, in order, each with the 1-based
  number of its line, the matched text in the casing of the file and the stripped line as
  context; and only then does it. In every case each match reported is such an occurrence. When there is no
  occurrence, or no line, the scan returns the empty list. For a readable file the monitor
  returns the scan of its lines and no error, and an empty file has no line.
\<close>

theorem scan_one_match_per_occurrence:
  "(scan_lines ci space pat ls = one_match_per_occurrence ci space pat ls \<longleftrightarrow>
      (\<forall>l\<in>set ls. non_overlapping (occurrences ci pat l))) \<and>
   set (scan_lines ci space pat ls) \<subseteq> set (one_match_per_occurrence ci space pat ls) \<and>
   (one_match_per_occurrence ci space pat ls = [] \<longrightarrow> scan_lines ci space pat ls = []) \<and>
   scan_lines ci space pat [] = [] \<and>
   (fs file_path = Content content \<longrightarrow>
      read_matches mon fs file_path =
        Inr (scan_lines ignorecase is_space (keywords_pattern mon) (file_lines content))) \<and>
   file_lines [] = []"
proof (intro conjI impI)
  show "scan_lines ci space pat ls = one_match_per_occurrence ci space pat ls \<longleftrightarrow>
      (\<forall>l\<in>set ls. non_overlapping (occurrences ci pat l))"
  proof
    assume "\<forall>l\<in>set ls. non_overlapping (occurrences ci pat l)"
    then show "scan_lines ci space pat ls = one_match_per_occurrence ci space pat ls"
      unfolding scan_lines_def one_match_per_occurrence_def by (rule scan_lines_from_complete)
  next
    assume same: "scan_lines ci space pat ls = one_match_per_occurrence ci space pat ls"
    show "\<forall>l\<in>set ls. non_overlapping (occurrences ci pat l)"
    proof (rule ccontr)
      assume "\<not> (\<forall>l\<in>set ls. non_overlapping (occurrences ci pat l))"
      then have "\<exists>l\<in>set ls. \<not> non_overlapping (occurrences ci pat l)" by blast
      then have "length (scan_lines ci space pat ls) <
          length (one_match_per_occurrence ci space pat ls)"
        unfolding scan_lines_def one_match_per_occurrence_def by (rule scan_lines_from_overlap)
      then show False using same by simp
    qed
  qed
next
  show sound: "set (scan_lines ci space pat ls) \<subseteq> set (one_match_per_occurrence ci space pat ls)"
    unfolding scan_lines_def one_match_per_occurrence_def by (rule scan_lines_from_sound)
  show "scan_lines ci space pat ls = []" if "one_match_per_occurrence ci space pat ls = []"
    using sound that by simp
next
  show "scan_lines ci space pat [] = []" by (simp add: scan_lines_def)
next
  assume "fs file_path = Content content"
  then show "read_matches mon fs file_path =
      Inr (scan_lines ignorecase is_space (keywords_pattern mon) (file_lines content))"
    by (simp add: read_matches_def)
next
  show "file_lines [] = []" by (simp add: file_lines_def)
qed

theorem scan_one_match_per_occurrence_witness:
  "read_matches (FileMonitor_init ''/home'' None None)
     (\<lambda>p. Content ''My Bank Account\<newline>  SSN and password '') ''notes.txt'' =
     Inr [\<lparr>keyword = ''Bank'', line = 1, context' = ''My Bank Account''\<rparr>,
          \<lparr>keyword = ''Account'', line = 1, context' = ''My Bank Account''\<rparr>,
          \<lparr>keyword = ''SSN'', line = 2, context' = ''SSN and password''\<rparr>,
          \<lparr>keyword = ''password'', line = 2, context' = ''SSN and password''\<rparr>]"
proof -
  let ?mon = "FileMonitor_init ''/home'' None None"
  let ?content = "''My Bank Account\<newline>  SSN and password ''"
  have stored: "(\<lambda>p::string. Content ?content) ''notes.txt'' = Content ?content" by simp
  have apart: "\<forall>l\<in>set (file_lines ?content).
      non_overlapping (occurrences ignorecase (keywords_pattern ?mon) l)"
    by code_simp
  have expected:
    "one_match_per_occurrence ignorecase is_space (keywords_pattern ?mon) (file_lines ?content) =
      [\<lparr>keyword = ''Bank'', line = 1, context' = ''My Bank Account''\<rparr>,
       \<lparr>keyword = ''Account'', line = 1, context' = ''My Bank Account''\<rparr>,
       \<lparr>keyword = ''SSN'', line = 2, context' = ''SSN and password''\<rparr>,
       \<lparr>keyword = ''password'', line = 2, context' = ''SSN and password''\<rparr>]"
    by code_simp
  show ?thesis
    using scan_one_match_per_occurrence
            [where ci = ignorecase and space = is_space and pat = "keywords_pattern ?mon"
               and ls = "file_lines ?content" and fs = "\<lambda>p. Content ?content"
               and file_path = "''notes.txt''" and content = "?content" and mon = "?mon"]
          stored apart expected
    by simp
qed

text \<open>
  C4 as stated fails where occurrences overlap, since \<open>finditer\<close> resumes its search
  after each match: with the keywords "bank" and "bank account" the line "Bank Account 42"
  holds an occurrence of each, and one match is reported; "aa" occurs twice in "aaa", and
  one match is reported.
\<close>

theorem overlapping_occurrences_counterexample:
  "scan_lines ignorecase is_space [''bank'', ''bank account''] (file_lines ''Bank Account 42'') \<noteq>
     one_match_per_occurrence ignorecase is_space [''bank'', ''bank account'']
       (file_lines ''Bank Account 42'') \<and>
   occurrences ignorecase [''bank'', ''bank account''] ''Bank Account 42'' =
     [(0, ''bank''), (0, ''bank account'')] \<and>
   read_matches (FileMonitor_init ''/home'' None (Some [''bank'', ''bank account'']))
     (\<lambda>p. Content ''Bank Account 42'') ''notes.txt'' =
     Inr [\<lparr>keyword = ''Bank'', line = 1, context' = ''Bank Account 42''\<rparr>] \<and>
   occurrences ignorecase [''aa''] ''aaa'' = [(0, ''aa''), (1, ''aa'')] \<and>
   scan_lines ignorecase is_space [''aa''] (file_lines ''aaa'') =
     [\<lparr>keyword = ''aa'', line = 1, context' = ''aaa''\<rparr>]"
  by code_simp

section \<open>Decisions on sensitive files\<close>

text \<open>
  C1. A file is created or modified, its extension is scannable, and its content holds a
  configured keyword up to case: on one of its lines, as the matcher looks for it, or
  anywhere in the content for a keyword that is not empty and has no line break (such a
  keyword then lies on a line). If \<open>usb_detected\<close> is true, \<open>handle_file_access\<close>
  returns the decision block, "Potential data exfiltration detected", high, and the one
  high alert it logs is "Sensitive data found in file: " followed by the path.
\<close>

theorem exfiltration_blocked:
  assumes "access_type = ''created'' \<or> access_type = ''modified''"
    and "is_text_file file_path"
    and "fs file_path = Content content"
    and "(\<exists>l\<in>set (file_lines content). \<exists>kw\<in>set (keywords_pattern mon).
            contains (lower l) (lower kw)) \<or>
         (\<exists>kw\<in>set (keywords_pattern mon). kw \<noteq> [] \<and> CHR 0x0D \<notin> set kw \<and>
            CHR 0x0A \<notin> set kw \<and> contains (lower content) (lower kw))"
    and "usb_detected mon"
  shows "fst (handle_file_access mon fs file_path access_type) =
           \<lparr>action = ''block'', reason = ''Potential data exfiltration detected'',
            alert_level = ''high''\<rparr> \<and>
         alert_messages ''HIGH'' (snd (handle_file_access mon fs file_path access_type)) =
           [''Sensitive data found in file: '' @ file_path]"
proof -
  have "fst (fst (check_file_for_sensitive_data mon fs file_path))"
    using assms(2,3) keyword_found_on_line [OF assms(4)] by (simp add: has_sensitive_iff)
  with assms(1,5) show ?thesis
    by (simp add: handle_file_access_decision handle_file_access_alerts)
qed

theorem exfiltration_blocked_witness:
  "fst (handle_file_access ((FileMonitor_init ''/home'' None None)\<lparr>usb_detected := True\<rparr>)
         (\<lambda>p. if p = ''notes.txt'' then Content ''this is confidential'' else Missing)
         ''notes.txt'' ''created'') =
     \<lparr>action = ''block'', reason = ''Potential data exfiltration detected'',
      alert_level = ''high''\<rparr> \<and>
   alert_messages ''HIGH''
     (snd (handle_file_access ((FileMonitor_init ''/home'' None None)\<lparr>usb_detected := True\<rparr>)
         (\<lambda>p. if p = ''notes.txt'' then Content ''this is confidential'' else Missing)
         ''notes.txt'' ''created'')) =
     [''Sensitive data found in file: notes.txt'']"
proof -
  let ?mon = "(FileMonitor_init ''/home'' None None)\<lparr>usb_detected := True\<rparr>"
  let ?fs = "\<lambda>p. if p = ''notes.txt'' then Content ''this is confidential'' else Missing"
  have kind: "''created'' = ''created'' \<or> ''created'' = ''modified''" by simp
  have scannable: "is_text_file ''notes.txt''" by code_simp
  have stored: "?fs ''notes.txt'' = Content ''this is confidential''" by simp
  have found: "(\<exists>l\<in>set (file_lines ''this is confidential'').
        \<exists>kw\<in>set (keywords_pattern ?mon). contains (lower l) (lower kw)) \<or>
      (\<exists>kw\<in>set (keywords_pattern ?mon). kw \<noteq> [] \<and> CHR 0x0D \<notin> set kw \<and>
        CHR 0x0A \<notin> set kw \<and> contains (lower ''this is confidential'') (lower kw))"
    by code_simp
  have usb: "usb_detected ?mon" by simp
  show ?thesis
    using exfiltration_blocked
            [where access_type = "''created''" and file_path = "''notes.txt''" and fs = "?fs"
               and content = "''this is confidential''" and mon = "?mon",
             OF kind scannable stored found usb]
    by simp
qed

text \<open>
  C2. The same event with \<open>usb_detected\<close> false, on a path that holds neither ".eml" nor
  "email" in any casing: \<open>handle_file_access\<close> returns allow, "No threat detected", low;
  it logs exactly one medium alert, "Sensitive data found in file: " followed by the path,
  and no alert of another level.
\<close>

theorem medium_alert_allows:
  assumes "access_type = ''created'' \<or> access_type = ''modified''"
    and "is_text_file file_path"
    and "fs file_path = Content content"
    and "(\<exists>l\<in>set (file_lines content). \<exists>kw\<in>set (keywords_pattern mon).
            contains (lower l) (lower kw)) \<or>
         (\<exists>kw\<in>set (keywords_pattern mon). kw \<noteq> [] \<and> CHR 0x0D \<notin> set kw \<and>
            CHR 0x0A \<notin> set kw \<and> contains (lower content) (lower kw))"
    and "\<not> usb_detected mon"
    and "\<not> contains (lower file_path) ''.eml''" and "\<not> contains (lower file_path) ''email''"
  shows "fst (handle_file_access mon fs file_path access_type) =
           \<lparr>action = ''allow'', reason = ''No threat detected'', alert_level = ''low''\<rparr> \<and>
         alert_messages ''MEDIUM'' (snd (handle_file_access mon fs file_path access_type)) =
           [''Sensitive data found in file: '' @ file_path] \<and>
         alert_messages ''HIGH'' (snd (handle_file_access mon fs file_path access_type)) = [] \<and>
         alert_messages ''LOW'' (snd (handle_file_access mon fs file_path access_type)) = []"
proof -
  have "fst (fst (check_file_for_sensitive_data mon fs file_path))"
    using assms(2,3) keyword_found_on_line [OF assms(4)] by (simp add: has_sensitive_iff)
  with assms(1,5-7) show ?thesis
    by (simp add: handle_file_access_decision handle_file_access_alerts)
qed

theorem medium_alert_allows_witness:
  "fst (handle_file_access (FileMonitor_init ''/home'' None None)
         (\<lambda>p. if p = ''notes.txt'' then Content ''this is confidential'' else Missing)
         ''notes.txt'' ''created'') =
     \<lparr>action = ''allow'', reason = ''No threat detected'', alert_level = ''low''\<rparr> \<and>
   alert_messages ''MEDIUM''
     (snd (handle_file_access (FileMonitor_init ''/home'' None None)
         (\<lambda>p. if p = ''notes.txt'' then Content ''this is confidential'' else Missing)
         ''notes.txt'' ''created'')) =
     [''Sensitive data found in file: notes.txt'']"
proof -
  let ?mon = "FileMonitor_init ''/home'' None None"
  let ?fs = "\<lambda>p. if p = ''notes.txt'' then Content ''this is confidential'' else Missing"
  have kind: "''created'' = ''created'' \<or> ''created'' = ''modified''" by simp
  have scannable: "is_text_file ''notes.txt''" by code_simp
  have stored: "?fs ''notes.txt'' = Content ''this is confidential''" by simp
  have found: "(\<exists>l\<in>set (file_lines ''this is confidential'').
        \<exists>kw\<in>set (keywords_pattern ?mon). contains (lower l) (lower kw)) \<or>
      (\<exists>kw\<in>set (keywords_pattern ?mon). kw \<noteq> [] \<and> CHR 0x0D \<notin> set kw \<and>
        CHR 0x0A \<notin> set kw \<and> contains (lower ''this is confidential'') (lower kw))"
    by code_simp
  have usb: "\<not> usb_detected ?mon" by code_simp
  have eml: "\<not> contains (lower ''notes.txt'') ''.eml''" by code_simp
  have email: "\<not> contains (lower ''notes.txt'') ''email''" by code_simp
  show ?thesis
    using medium_alert_allows
            [where access_type = "''created''" and file_path = "''notes.txt''" and fs = "?fs"
               and content = "''this is confidential''" and mon = "?mon",
             OF kind scannable stored found usb eml email]
    by simp
qed

section \<open>The email check\<close>

text \<open>
  C3, as amended. The path holds ".eml" or "email" in some casing, its extension is
  scannable, the file can be read and its content holds a configured keyword (as in C1).
  Unless the first part already returned the exfiltration block (a created or modified file with
  \<open>usb_detected\<close> true), \<open>handle_file_access\<close> returns block, "Potential email data
  leak detected", high, and the one high alert it logs is "Potential email data leak
  detected: " followed by the path.
\<close>

theorem email_leak_blocked:
  assumes "contains (lower file_path) ''.eml'' \<or> contains (lower file_path) ''email''"
    and "is_text_file file_path"
    and "fs file_path = Content content"
    and "(\<exists>l\<in>set (file_lines content). \<exists>kw\<in>set (keywords_pattern mon).
            contains (lower l) (lower kw)) \<or>
         (\<exists>kw\<in>set (keywords_pattern mon). kw \<noteq> [] \<and> CHR 0x0D \<notin> set kw \<and>
            CHR 0x0A \<notin> set kw \<and> contains (lower content) (lower kw))"
    and "\<not> ((access_type = ''created'' \<or> access_type = ''modified'') \<and> usb_detected mon)"
  shows "fst (handle_file_access mon fs file_path access_type) =
           \<lparr>action = ''block'', reason = ''Potential email data leak detected'',
            alert_level = ''high''\<rparr> \<and>
         alert_messages ''HIGH'' (snd (handle_file_access mon fs file_path access_type)) =
           [''Potential email data leak detected: '' @ file_path]"
proof -
  have "fst (fst (check_file_for_sensitive_data mon fs file_path))"
    using assms(2,3) keyword_found_on_line [OF assms(4)] by (simp add: has_sensitive_iff)
  with assms(1,5) show ?thesis
    by (auto simp add: handle_file_access_decision handle_file_access_alerts)
qed

theorem email_leak_blocked_witness:
  "fst (handle_file_access (FileMonitor_init ''/home'' None None)
         (\<lambda>p. if p = ''email_draft.txt'' then Content ''my Password'' else Missing)
         ''email_draft.txt'' ''modified'') =
     \<lparr>action = ''block'', reason = ''Potential email data leak detected'',
      alert_level = ''high''\<rparr> \<and>
   alert_messages ''HIGH''
     (snd (handle_file_access (FileMonitor_init ''/home'' None None)
         (\<lambda>p. if p = ''email_draft.txt'' then Content ''my Password'' else Missing)
         ''email_draft.txt'' ''modified'')) =
     [''Potential email data leak detected: email_draft.txt'']"
proof -
  let ?mon = "FileMonitor_init ''/home'' None None"
  let ?fs = "\<lambda>p. if p = ''email_draft.txt'' then Content ''my Password'' else Missing"
  have name: "contains (lower ''email_draft.txt'') ''.eml'' \<or>
      contains (lower ''email_draft.txt'') ''email''"
    by code_simp
  have scannable: "is_text_file ''email_draft.txt''" by code_simp
  have stored: "?fs ''email_draft.txt'' = Content ''my Password''" by simp
  have found: "(\<exists>l\<in>set (file_lines ''my Password'').
        \<exists>kw\<in>set (keywords_pattern ?mon). contains (lower l) (lower kw)) \<or>
      (\<exists>kw\<in>set (keywords_pattern ?mon). kw \<noteq> [] \<and> CHR 0x0D \<notin> set kw \<and>
        CHR 0x0A \<notin> set kw \<and> contains (lower ''my Password'') (lower kw))"
    by code_simp
  have usb: "\<not> ((''modified'' = ''created'' \<or> ''modified'' = ''modified'') \<and> usb_detected ?mon)"
    by code_simp
  show ?thesis
    using email_leak_blocked
            [where access_type = "''modified''" and file_path = "''email_draft.txt''"
               and fs = "?fs" and content = "''my Password''" and mon = "?mon",
             OF name scannable stored found usb]
    by simp
qed

text \<open>
  C3 as stated fails where the extension is not scannable: \<open>email.docx\<close> passes the name
  test and holds "password", which the keyword matcher finds in its content, and the first
  part returned nothing; yet the decision is allow and no high alert is logged. A file that
  is not a text file by its extension is never opened: \<open>check_file_for_sensitive_data\<close>
  returns before it reads the content.
\<close>

theorem email_leak_unscanned_counterexample:
  "contains (lower ''email.docx'') ''email'' \<and>
   scan_lines ignorecase is_space (keywords_pattern (FileMonitor_init ''/home'' None None))
     (file_lines ''my password'') =
     [\<lparr>keyword = ''password'', line = 1, context' = ''my password''\<rparr>] \<and>
   fst (check_created_or_modified (FileMonitor_init ''/home'' None None)
          (\<lambda>p. Content ''my password'') ''email.docx'' ''created'') = None \<and>
   fst (handle_file_access (FileMonitor_init ''/home'' None None)
          (\<lambda>p. Content ''my password'') ''email.docx'' ''created'') =
     \<lparr>action = ''allow'', reason = ''No threat detected'', alert_level = ''low''\<rparr> \<and>
   alert_messages ''HIGH''
     (snd (handle_file_access (FileMonitor_init ''/home'' None None)
          (\<lambda>p. Content ''my password'') ''email.docx'' ''created'')) = []"
  by code_simp

section \<open>Facts about \<open>splitext\<close>\<close>

lemma rfind_from_absent: "c \<notin> set s \<Longrightarrow> rfind_from c s i found = found"
  by (induction s arbitrary: i found) auto

lemma rfind_from_last:
  "c \<notin> set ys \<Longrightarrow> rfind_from c (xs @ c # ys) i found = i + int (length xs)"
  by (induction xs arbitrary: i found) (auto simp: rfind_from_absent)

lemma rfind_last: "c \<notin> set ys \<Longrightarrow> rfind (xs @ c # ys) c = int (length xs)"
  by (simp add: rfind_def rfind_from_last)

lemma rfind_absent: "c \<notin> set s \<Longrightarrow> rfind s c = -1"
  by (simp add: rfind_def rfind_from_absent)

lemma splitext_loop_Some:
  "splitext_loop p i d = Some r \<Longrightarrow> r = (take (nat d) p, drop (nat d) p)"
  by (induction p i d rule: splitext_loop.induct)
     (subst (asm) splitext_loop.simps, auto split: if_splits)

lemma splitext_snd_cases:
  "snd (splitext p) = [] \<or> snd (splitext p) = drop (nat (rfind p CHR ''.'')) p"
  by (auto simp: splitext_def Let_def dest: splitext_loop_Some split: option.splits)

lemma eml_not_text_file: "\<not> is_text_file (stem @ ''.eml'')"
proof -
  have "rfind (stem @ CHR ''.'' # ''eml'') CHR ''.'' = int (length stem)"
    by (rule rfind_last) simp
  then have "snd (splitext (stem @ ''.eml'')) = [] \<or> snd (splitext (stem @ ''.eml'')) = ''.eml''"
    using splitext_snd_cases [of "stem @ ''.eml''"] by simp
  then show ?thesis
    by (auto simp: is_text_file_def text_extensions_def lower_def lower_char_def upper_letters_def lower_letters_def)
qed

lemma splitext_loop_dots:
  "\<forall>j. i \<le> j \<and> j < d \<longrightarrow> take 1 (drop (nat j) p) = ''.'' \<Longrightarrow> splitext_loop p i d = None"
proof (induction p i d rule: splitext_loop.induct)
  case (1 p i d)
  show ?case
  proof (cases "i < d")
    case True
    then have here: "take 1 (drop (nat i) p) = ''.''" using "1.prems" by simp
    have "splitext_loop p (i + 1) d = None"
      using True here "1.prems" by (intro "1.IH") auto
    with True here show ?thesis by (subst splitext_loop.simps) simp
  next
    case False
    then show ?thesis by (subst splitext_loop.simps) simp
  qed
qed

lemma splitext_loop_found:
  "i \<le> j \<Longrightarrow> j < d \<Longrightarrow> take 1 (drop (nat j) p) \<noteq> ''.'' \<Longrightarrow>
   splitext_loop p i d = Some (take (nat d) p, drop (nat d) p)"
proof (induction p i d rule: splitext_loop.induct)
  case (1 p i d)
  have less: "i < d" using "1.prems" by simp
  show ?case
  proof (cases "take 1 (drop (nat i) p) \<noteq> ''.''")
    case True
    with less show ?thesis by (subst splitext_loop.simps) simp
  next
    case False
    then have "i \<noteq> j" using "1.prems" by auto
    then have "i + 1 \<le> j" using "1.prems" by simp
    then have "splitext_loop p (i + 1) d = Some (take (nat d) p, drop (nat d) p)"
      using less False "1.prems" by (intro "1.IH") auto
    with less False show ?thesis by (subst splitext_loop.simps) simp
  qed
qed


lemma take1_drop: "j < length p \<Longrightarrow> take 1 (drop j p) = [p ! j]"
  by (simp add: Cons_nth_drop_Suc [symmetric])

lemma path_split:
  obtains dir where "p = dir @ last_component p"
    and "rfind p CHR ''/'' = int (length dir) - 1"
    and "CHR ''.'' \<in> set dir \<longrightarrow> (\<exists>xs ys. dir = xs @ CHR ''.'' # ys \<and> CHR ''.'' \<notin> set ys \<and> ys \<noteq> [])"
proof -
  let ?P = "\<lambda>c. c \<noteq> CHR ''/''"
  define dir where "dir = rev (dropWhile ?P (rev p))"
  have "dir @ last_component p = rev (takeWhile ?P (rev p) @ dropWhile ?P (rev p))"
    by (simp only: dir_def last_component_def rev_append)
  then have split: "p = dir @ last_component p"
    by (simp only: takeWhile_dropWhile_id rev_rev_ident)
  have clean: "CHR ''/'' \<notin> set (last_component p)"
    using set_takeWhileD [of "CHR ''/''" ?P "rev p"] by (auto simp: last_component_def)
  have ends: "dir = [] \<or> (\<exists>d. dir = d @ ''/'')"
  proof (cases "dropWhile ?P (rev p)")
    case Nil
    then show ?thesis by (simp add: dir_def)
  next
    case (Cons c cs)
    then have "\<not> ?P c" using hd_dropWhile [of ?P "rev p"] by simp
    with Cons show ?thesis by (simp add: dir_def)
  qed
  have sep: "rfind p CHR ''/'' = int (length dir) - 1"
  proof (cases "dir = []")
    case True
    with split clean show ?thesis by (simp add: rfind_absent)
  next
    case False
    then obtain d where d: "dir = d @ ''/''" using ends by blast
    then have "p = d @ CHR ''/'' # last_component p" using split by simp
    then have "rfind p CHR ''/'' = int (length d)"
      using rfind_last [OF clean, of d] by simp
    with d show ?thesis by simp
  qed
  have dot: "\<exists>xs ys. dir = xs @ CHR ''.'' # ys \<and> CHR ''.'' \<notin> set ys \<and> ys \<noteq> []"
    if inside: "CHR ''.'' \<in> set dir"
  proof -
    obtain xs ys where xy: "dir = xs @ CHR ''.'' # ys" "CHR ''.'' \<notin> set ys"
      using split_list_last [OF inside] by blast
    have "ys \<noteq> []"
    proof
      assume "ys = []"
      with xy have "last dir = CHR ''.''" by simp
      moreover from inside ends obtain d where "dir = d @ ''/''" by auto
      ultimately show False by simp
    qed
    with xy show ?thesis by blast
  qed
  show thesis using that [OF split sep] dot by blast
qed

lemma splitext_extension: "snd (splitext p) = path_extension p"
proof -
  obtain dir where split: "p = dir @ last_component p"
    and sep: "rfind p CHR ''/'' = int (length dir) - 1"
    and dir_dot: "CHR ''.'' \<in> set dir \<longrightarrow>
      (\<exists>xs ys. dir = xs @ CHR ''.'' # ys \<and> CHR ''.'' \<notin> set ys \<and> ys \<noteq> [])"
    by (rule path_split)
  let ?D = "\<lambda>c. c = CHR ''.''"
  define dots where "dots = takeWhile ?D (last_component p)"
  define name where "name = dropWhile ?D (last_component p)"
  have comp: "last_component p = dots @ name" by (simp add: dots_def name_def)
  have all_dots: "\<forall>c\<in>set dots. c = CHR ''.''"
    using set_takeWhileD [of _ ?D "last_component p"] by (auto simp: dots_def)
  have p_eq: "p = dir @ dots @ name" using split comp by simp
  show ?thesis
  proof (cases "CHR ''.'' \<in> set name")
    case True
    then obtain r1 r2 where r: "name = r1 @ CHR ''.'' # r2" "CHR ''.'' \<notin> set r2"
      using split_list_last by fastforce
    have "name \<noteq> []" using True by auto
    then have "hd name \<noteq> CHR ''.''"
      using hd_dropWhile [of ?D "last_component p"] by (simp add: name_def)
    then have r1: "r1 \<noteq> []" "hd r1 \<noteq> CHR ''.''" using r(1) by (cases r1; simp)+
    have p3: "p = (dir @ dots @ r1) @ CHR ''.'' # r2" using p_eq r(1) by simp
    have dot: "rfind p CHR ''.'' = int (length dir + length dots + length r1)"
      using rfind_last [OF r(2), of "dir @ dots @ r1"] p3 by simp
    have here: "take 1 (drop (length dir + length dots) p) \<noteq> ''.''"
    proof -
      have "drop (length dir + length dots) p = r1 @ CHR ''.'' # r2"
        using p3 by (simp add: drop_append)
      then show ?thesis using r1 by (cases r1) simp_all
    qed
    have at: "nat (rfind p CHR ''.'') = length dir + length dots + length r1"
      using dot by simp
    have after: "rfind p CHR ''/'' < rfind p CHR ''.''"
      using sep dot by simp
    have "splitext_loop p (rfind p CHR ''/'' + 1) (rfind p CHR ''.'') =
        Some (take (nat (rfind p CHR ''.'')) p, drop (nat (rfind p CHR ''.'')) p)"
      using r1 here
      by (intro splitext_loop_found [where j = "int (length dir + length dots)"])
         (simp_all add: sep dot nat_int_add)
    then have "snd (splitext p) = drop (length dir + length dots + length r1) p"
      using after by (simp add: splitext_def Let_def at)
    also have "\<dots> = CHR ''.'' # r2" using p3 by simp
    finally have code: "snd (splitext p) = CHR ''.'' # r2" .
    have "takeWhile (\<lambda>c. c \<noteq> CHR ''.'') (rev name) = rev r2"
      using r by (auto simp: takeWhile_tail)
    then have "path_extension p = CHR ''.'' # r2"
      using True by (simp add: path_extension_def name_def)
    with code show ?thesis by simp
  next
    case False
    then have spec: "path_extension p = []"
      by (simp add: path_extension_def name_def)
    have "snd (splitext p) = []"
    proof (cases "dots = []")
      case True
      then have no_dot: "CHR ''.'' \<notin> set (last_component p)" using comp False by simp
      have "rfind p CHR ''.'' \<le> rfind p CHR ''/''"
      proof (cases "CHR ''.'' \<in> set dir")
        case True
        then obtain xs ys where xy: "dir = xs @ CHR ''.'' # ys" "CHR ''.'' \<notin> set ys" "ys \<noteq> []"
          using dir_dot by blast
        then have "p = xs @ CHR ''.'' # (ys @ last_component p)" using split by simp
        moreover have "CHR ''.'' \<notin> set (ys @ last_component p)" using xy(2) no_dot by simp
        ultimately have "rfind p CHR ''.'' = int (length xs)"
          using rfind_last [of "CHR ''.''" "ys @ last_component p" xs] by simp
        moreover have "length xs + 1 < length dir" using xy by (cases ys) simp_all
        ultimately show ?thesis using sep by simp
      next
        case False
        then have "CHR ''.'' \<notin> set p" using split no_dot
          by (metis Un_iff set_append)
        then show ?thesis using sep by (simp add: rfind_absent)
      qed
      then show ?thesis by (simp add: splitext_def Let_def)
    next
      case nonempty: False
      then obtain ds where ds: "dots = ds @ ''.''"
        using all_dots by (metis append_butlast_last_id last_in_set)
      have p3: "p = (dir @ ds) @ CHR ''.'' # name" using p_eq ds by simp
      have dot: "rfind p CHR ''.'' = int (length dir + length ds)"
        using rfind_last [OF False, of "dir @ ds"] p3 by simp
      have "take 1 (drop (nat j) p) = ''.''"
        if "int (length dir) \<le> j" "j < int (length dir + length ds)" for j
      proof -
        define k where "k = nat j - length dir"
        have k: "nat j = length dir + k" "k < length ds"
          using that unfolding k_def by linarith+
        have lt: "nat j < length p" unfolding k(1) using k(2) by (subst p3) simp
        have "p ! nat j = ds ! k"
          unfolding k(1) using k(2) by (subst p3) (simp add: nth_append)
        moreover have "ds ! k \<in> set ds" using k(2) by simp
        ultimately have "p ! nat j = CHR ''.''" using all_dots ds by simp
        then show ?thesis using take1_drop [OF lt] by simp
      qed
      then have "splitext_loop p (rfind p CHR ''/'' + 1) (rfind p CHR ''.'') = None"
        by (intro splitext_loop_dots) (simp add: sep dot)
      then show ?thesis by (simp add: splitext_def Let_def)
    qed
    with spec show ?thesis by simp
  qed
qed

section \<open>The text-file classifier decides by the extension\<close>

text \<open>
  C5. \<open>_is_text_file\<close> is true exactly when the extension of the path, lowered, is one
  of .txt, .py, .js, .html, .csv, .json, .xml, .md, .log, .ini, .cfg, .conf. So a path
  without an extension is not a text file, and two paths whose extensions agree up to case
  are classified alike.
\<close>

theorem text_file_by_extension:
  "(is_text_file file_path \<longleftrightarrow>
      lower (path_extension file_path) \<in>
        set (map ((#) CHR ''.'')
              [''txt'', ''py'', ''js'', ''html'', ''csv'', ''json'', ''xml'', ''md'', ''log'',
               ''ini'', ''cfg'', ''conf''])) \<and>
   (path_extension file_path = [] \<longrightarrow> \<not> is_text_file file_path) \<and>
   (lower (path_extension file_path) = lower (path_extension other) \<longrightarrow>
      is_text_file file_path = is_text_file other)"
proof -
  have by_ext: "is_text_file q \<longleftrightarrow> lower (path_extension q) \<in> set text_extensions" for q
    by (simp add: is_text_file_def splitext_extension Let_def)
  have listed:
    "map ((#) CHR ''.'')
       [''txt'', ''py'', ''js'', ''html'', ''csv'', ''json'', ''xml'', ''md'', ''log'',
        ''ini'', ''cfg'', ''conf''] = text_extensions"
    by (simp add: text_extensions_def)
  have absent: "lower [] \<notin> set text_extensions"
    by (simp add: text_extensions_def lower_def)
  show ?thesis
    unfolding listed using absent by (auto simp: by_ext)
qed

theorem text_file_by_extension_witness:
  "is_text_file ''logs/Report.TXT'' \<and> \<not> is_text_file ''README'' \<and>
   \<not> is_text_file ''v1.2/notes'' \<and> \<not> is_text_file ''.conf'' \<and>
   is_text_file ''report.txt''"
proof -
  have upper: "lower (path_extension ''logs/Report.TXT'') = ''.txt''" by code_simp
  have plain: "lower (path_extension ''report.txt'') = ''.txt''" by code_simp
  have none: "path_extension ''README'' = []" by code_simp
  have dir_dot: "path_extension ''v1.2/notes'' = []" by code_simp
  have hidden: "path_extension ''.conf'' = []" by code_simp
  show ?thesis
    using text_file_by_extension [where file_path = "''logs/Report.TXT''" and other = "''report.txt''"]
          text_file_by_extension [where file_path = "''README''" and other = "''README''"]
          text_file_by_extension [where file_path = "''v1.2/notes''" and other = "''README''"]
          text_file_by_extension [where file_path = "''.conf''" and other = "''README''"]
          upper plain none dir_dot hidden
    by (auto simp: lower_def)
qed

section \<open>Files that vanish or cannot be read\<close>

text \<open>
  C6. If the file is missing, or opening or reading it raises, then
  \<open>check_file_for_sensitive_data\<close> returns \<open>(False, [])\<close> and \<open>handle_file_access\<close>
  returns a decision, allow. For a scannable path the exception raised inside the \<open>try\<close>
  is caught there and logged as one error record.
\<close>

theorem scan_failure_degrades:
  assumes "fs file_path = Missing \<or> fs file_path = Unreadable e"
  shows "fst (check_file_for_sensitive_data mon fs file_path) = (False, []) \<and>
         fst (handle_file_access mon fs file_path access_type) =
           \<lparr>action = ''allow'', reason = ''No threat detected'', alert_level = ''low''\<rparr> \<and>
         (fs file_path = Unreadable e \<and> is_text_file file_path \<longrightarrow>
            read_matches mon fs file_path = Inl e \<and>
            snd (check_file_for_sensitive_data mon fs file_path) =
              [(ERROR, ''Error checking file for sensitive data: '' @ e)])"
proof -
  have result: "fst (check_file_for_sensitive_data mon fs file_path) = (False, [])"
    using assms by (auto simp: check_file_result)
  then have "fst (handle_file_access mon fs file_path access_type) =
      \<lparr>action = ''allow'', reason = ''No threat detected'', alert_level = ''low''\<rparr>"
    by (simp add: handle_file_access_decision)
  moreover have "read_matches mon fs file_path = Inl e \<and>
      snd (check_file_for_sensitive_data mon fs file_path) =
        [(ERROR, ''Error checking file for sensitive data: '' @ e)]"
    if "fs file_path = Unreadable e" and "is_text_file file_path"
    using that by (simp add: read_matches_def check_file_for_sensitive_data_def)
  ultimately show ?thesis using result by blast
qed

theorem scan_failure_degrades_witness:
  "fst (check_file_for_sensitive_data ((FileMonitor_init ''/home'' None None)\<lparr>usb_detected := True\<rparr>)
          (\<lambda>p. Missing) ''gone.txt'') = (False, []) \<and>
   fst (handle_file_access ((FileMonitor_init ''/home'' None None)\<lparr>usb_detected := True\<rparr>)
          (\<lambda>p. Missing) ''gone.txt'' ''modified'') =
     \<lparr>action = ''allow'', reason = ''No threat detected'', alert_level = ''low''\<rparr> \<and>
   fst (handle_file_access ((FileMonitor_init ''/home'' None None)\<lparr>usb_detected := True\<rparr>)
          (\<lambda>p. Unreadable ''[Errno 13] Permission denied'') ''email.txt'' ''created'') =
     \<lparr>action = ''allow'', reason = ''No threat detected'', alert_level = ''low''\<rparr> \<and>
   snd (check_file_for_sensitive_data ((FileMonitor_init ''/home'' None None)\<lparr>usb_detected := True\<rparr>)
          (\<lambda>p. Unreadable ''[Errno 13] Permission denied'') ''email.txt'') =
     [(ERROR, ''Error checking file for sensitive data: [Errno 13] Permission denied'')]"
proof -
  let ?mon = "(FileMonitor_init ''/home'' None None)\<lparr>usb_detected := True\<rparr>"
  have scannable: "is_text_file ''email.txt''" by code_simp
  show ?thesis
    using scan_failure_degrades
            [where fs = "\<lambda>p. Missing" and file_path = "''gone.txt''" and mon = "?mon"
               and access_type = "''modified''"]
          scan_failure_degrades
            [where fs = "\<lambda>p. Unreadable ''[Errno 13] Permission denied''"
               and e = "''[Errno 13] Permission denied''"
               and file_path = "''email.txt''" and mon = "?mon" and access_type = "''created''"]
          scannable
    by simp
qed

section \<open>Paths that are not scanned\<close>

text \<open>
  C10. For a path whose extension is not scannable, \<open>check_file_for_sensitive_data\<close>
  returns \<open>(False, [])\<close> and \<open>handle_file_access\<close> returns allow, whatever the file
  holds, the event and \<open>usb_detected\<close>. Every path that ends in ".eml" is such a path.
  Whenever the decision is the email block, the path passes the name test and its extension
  is scannable.
\<close>

theorem unscannable_never_blocked:
  "(\<not> is_text_file file_path \<longrightarrow>
      fst (check_file_for_sensitive_data mon fs file_path) = (False, []) \<and>
      fst (handle_file_access mon fs file_path access_type) =
        \<lparr>action = ''allow'', reason = ''No threat detected'', alert_level = ''low''\<rparr>) \<and>
   \<not> is_text_file (stem @ ''.eml'') \<and>
   (fst (handle_file_access mon fs file_path access_type) =
      \<lparr>action = ''block'', reason = ''Potential email data leak detected'',
       alert_level = ''high''\<rparr> \<longrightarrow>
    (contains (lower file_path) ''.eml'' \<or> contains (lower file_path) ''email'') \<and>
    is_text_file file_path)"
proof (intro conjI impI)
  assume "\<not> is_text_file file_path"
  then show result: "fst (check_file_for_sensitive_data mon fs file_path) = (False, [])"
    by (simp add: check_file_result split: file_state.splits)
  then show "fst (handle_file_access mon fs file_path access_type) =
      \<lparr>action = ''allow'', reason = ''No threat detected'', alert_level = ''low''\<rparr>"
    by (simp add: handle_file_access_decision)
next
  show "\<not> is_text_file (stem @ ''.eml'')" by (rule eml_not_text_file)
next
  assume blocked: "fst (handle_file_access mon fs file_path access_type) =
      \<lparr>action = ''block'', reason = ''Potential email data leak detected'',
       alert_level = ''high''\<rparr>"
  then show "contains (lower file_path) ''.eml'' \<or> contains (lower file_path) ''email''"
    by (simp add: handle_file_access_decision split: if_splits)
  from blocked have "fst (fst (check_file_for_sensitive_data mon fs file_path))"
    by (simp add: handle_file_access_decision split: if_splits)
  then show "is_text_file file_path"
    by (simp add: has_sensitive_iff)
qed

theorem unscannable_never_blocked_witness:
  "fst (handle_file_access ((FileMonitor_init ''/home'' None None)\<lparr>usb_detected := True\<rparr>)
          (\<lambda>p. Content ''my password'') ''mail.eml'' ''created'') =
     \<lparr>action = ''allow'', reason = ''No threat detected'', alert_level = ''low''\<rparr> \<and>
   is_text_file ''email_draft.txt'' \<and>
   fst (handle_file_access (FileMonitor_init ''/home'' None None)
          (\<lambda>p. Content ''my password'') ''email_draft.txt'' ''deleted'') =
     \<lparr>action = ''block'', reason = ''Potential email data leak detected'',
      alert_level = ''high''\<rparr>"
proof -
  let ?usb = "(FileMonitor_init ''/home'' None None)\<lparr>usb_detected := True\<rparr>"
  let ?mon = "FileMonitor_init ''/home'' None None"
  let ?fs = "\<lambda>p::string. Content ''my password''"
  have unscannable: "\<not> is_text_file ''mail.eml''" by code_simp
  have blocked: "fst (handle_file_access ?mon ?fs ''email_draft.txt'' ''deleted'') =
     \<lparr>action = ''block'', reason = ''Potential email data leak detected'',
      alert_level = ''high''\<rparr>"
    by code_simp
  show ?thesis
    using unscannable_never_blocked
            [where file_path = "''mail.eml''" and mon = "?usb" and fs = "?fs"
               and access_type = "''created''"]
          unscannable_never_blocked
            [where file_path = "''email_draft.txt''" and mon = "?mon" and fs = "?fs"
               and access_type = "''deleted''"]
          unscannable blocked
    by simp
qed

section \<open>Moves\<close>

text \<open>
  C8. For a move of a file, \<open>on_moved\<close> handles the source path as "moved from" and then
  the destination path as "moved to": its log is the log of the first call followed by the
  log of the second, and the activity records in it are exactly these two, in this order.
\<close>

theorem move_source_then_destination:
  assumes "\<not> is_directory event"
  shows "on_moved mon fs event =
           snd (handle_file_access mon fs (src_path event) ''moved from'') @
           snd (handle_file_access mon fs (dest_path event) ''moved to'') \<and>
         activity_records (on_moved mon fs event) =
           [(INFO, ''ACTIVITY: moved from - '' @ src_path event),
            (INFO, ''ACTIVITY: moved to - '' @ dest_path event)]"
  using assms by (simp add: on_moved_def handle_file_access_activity log_activity_def)

theorem move_source_then_destination_witness:
  "activity_records
     (on_moved (FileMonitor_init ''/home'' None None)
        (\<lambda>p. if p = ''b.txt'' then Content ''my password'' else Missing)
        \<lparr>is_directory = False, src_path = ''a.txt'', dest_path = ''b.txt''\<rparr>) =
     [(INFO, ''ACTIVITY: moved from - a.txt''), (INFO, ''ACTIVITY: moved to - b.txt'')]"
proof -
  have plain: "\<not> is_directory \<lparr>is_directory = False, src_path = ''a.txt'', dest_path = ''b.txt''\<rparr>"
    by simp
  show ?thesis
    using move_source_then_destination
            [where mon = "FileMonitor_init ''/home'' None None"
               and fs = "\<lambda>p. if p = ''b.txt'' then Content ''my password'' else Missing",
             OF plain, THEN conjunct2]
    by simp
qed

section \<open>Lifecycle misuse\<close>

text \<open>
  C9. Calling \<open>start_monitoring\<close> on a running monitor, or \<open>stop_monitoring\<close> on one that is
  not running, raises nothing, logs one warning and returns the monitor as it was: every
  field, among them \<open>is_running\<close>, \<open>observer\<close> and \<open>usb_detected\<close>, is unchanged.
\<close>

theorem lifecycle_misuse_is_noop:
  "(is_running mon \<longrightarrow>
      start_monitoring path_exists mon =
        (None, mon, [(WARNING, ''File monitoring already running'')])) \<and>
   (\<not> is_running mon \<longrightarrow>
      stop_monitoring mon = (None, mon, [(WARNING, ''File monitoring not running'')]))"
  by (simp add: start_monitoring_def stop_monitoring_def)

theorem lifecycle_misuse_is_noop_witness:
  "start_monitoring (\<lambda>p. True)
     ((FileMonitor_init ''/home'' None None)\<lparr>is_running := True, usb_detected := True\<rparr>) =
     (None, (FileMonitor_init ''/home'' None None)\<lparr>is_running := True, usb_detected := True\<rparr>,
      [(WARNING, ''File monitoring already running'')]) \<and>
   stop_monitoring (FileMonitor_init ''/home'' None None) =
     (None, FileMonitor_init ''/home'' None None, [(WARNING, ''File monitoring not running'')])"
proof -
  have running:
    "is_running ((FileMonitor_init ''/home'' None None)\<lparr>is_running := True, usb_detected := True\<rparr>)"
    by simp
  have stopped: "\<not> is_running (FileMonitor_init ''/home'' None None)"
    by (simp add: FileMonitor_init_def)
  show ?thesis
    using lifecycle_misuse_is_noop
            [of "(FileMonitor_init ''/home'' None None)\<lparr>is_running := True, usb_detected := True\<rparr>"
                "\<lambda>p. True"]
          lifecycle_misuse_is_noop [of "FileMonitor_init ''/home'' None None" "\<lambda>p. True"]
          running stopped
    by blast
qed

section \<open>The bounded logs of the dashboard\<close>







end
